theory Spec2Isabelle
  imports Main "HOL-Library.AList" "HOL-Library.Char_ord" "HOL-Library.List_Lexorder"
begin

section \<open>Swarm pipeline: dependency graph, cycle detection, wave scheduling, state tracker\<close>

subsection \<open>JavaScript containers\<close>

text \<open>
  A JavaScript \<open>Set<string>\<close> keeps its members in insertion order without duplicates;
  it is a list here. \<open>add\<close> appends a member that is not there yet, \<open>delete\<close> removes it.
  A \<open>Map<string, V>\<close> is an association list: \<open>get\<close> is \<^const>\<open>map_of\<close>, \<open>has\<close> is
  membership of the key list, and \<open>set\<close> is \<^const>\<open>AList.update\<close>, which overwrites the
  value of a key in place and appends a new key at the end, as the insertion order of a
  \<open>Map\<close> has it.
\<close>

definition set_add :: "string \<Rightarrow> string list \<Rightarrow> string list" where
  "set_add x s = (if x \<in> set s then s else s @ [x])"

definition set_delete :: "string \<Rightarrow> string list \<Rightarrow> string list" where
  "set_delete x s = removeAll x s"

type_synonym graph = "(string \<times> string list) list"

definition map_has :: "(string \<times> 'v) list \<Rightarrow> string \<Rightarrow> bool" where
  "map_has m k = (k \<in> set (map fst m))"

datatype error = TypeError | Deadlock "string list"

subsection \<open>buildExecutionWaves (swarm/dag.ts)\<close>

text \<open>
  The inner scan of one pass: for every node of \<open>remaining\<close>, in order, \<open>deps.get(node)!\<close>
  is read and the node is pushed on the wave when every dependency is in \<open>completed\<close>.
  Iterating \<open>undefined\<close> is a TypeError in JavaScript; that is the \<open>None\<close> branch.
\<close>

fun scan_ready :: "graph \<Rightarrow> string list \<Rightarrow> string list \<Rightarrow> error + string list" where
  "scan_ready deps completed [] = Inr []"
| "scan_ready deps completed (node # rest) =
     (case map_of deps node of
        None \<Rightarrow> Inl TypeError
      | Some nodeDeps \<Rightarrow>
          (case scan_ready deps completed rest of
             Inl e \<Rightarrow> Inl e
           | Inr wave \<Rightarrow>
               Inr (if list_all (\<lambda>dep. dep \<in> set completed) nodeDeps
                    then node # wave else wave)))"

text \<open>The loop \<open>for (const node of wave) { remaining.delete(node); completed.add(node); }\<close>.\<close>

fun mark_done :: "string list \<Rightarrow> string list \<times> string list \<Rightarrow> string list \<times> string list" where
  "mark_done [] rc = rc"
| "mark_done (node # wave) (remaining, completed) =
     mark_done wave (set_delete node remaining, set_add node completed)"

text \<open>
  One pass of the \<open>while (remaining.size > 0)\<close> loop, on the loop state
  \<open>(completed, remaining, waves)\<close>: scan, throw the deadlock error on an empty wave,
  sort the wave, move its nodes from \<open>remaining\<close> to \<open>completed\<close>, push the wave.
  \<open>wave.sort()\<close> compares strings code unit by code unit; here it is \<^const>\<open>sort\<close> under the
  lexicographic order of the character codes.
\<close>

definition wave_pass ::
  "graph \<Rightarrow> string list \<times> string list \<times> string list list \<Rightarrow>
   error + (string list \<times> string list \<times> string list list)" where
  "wave_pass deps st =
     (case st of (completed, remaining, waves) \<Rightarrow>
        (case scan_ready deps completed remaining of
           Inl e \<Rightarrow> Inl e
         | Inr wave \<Rightarrow>
             if wave = [] then Inl (Deadlock remaining)
             else (let wave' = sort wave in
                   case mark_done wave' (remaining, completed) of
                     (remaining', completed') \<Rightarrow>
                       Inr (completed', remaining', waves @ [wave']))))"

lemma scan_ready_filter:
  "scan_ready deps completed remaining = Inr wave \<Longrightarrow>
   wave = filter (\<lambda>node. list_all (\<lambda>dep. dep \<in> set completed) (the (map_of deps node))) remaining"
  by (induction remaining arbitrary: wave) (auto split: option.splits sum.splits)

lemma scan_ready_subset:
  "scan_ready deps completed remaining = Inr wave \<Longrightarrow> set wave \<subseteq> set remaining"
  by (auto dest: scan_ready_filter)

lemma mark_done_eq:
  "mark_done wave (remaining, completed) =
     (filter (\<lambda>n. n \<notin> set wave) remaining, fold set_add wave completed)"
proof (induction wave arbitrary: remaining completed)
  case Nil
  show ?case by simp
next
  case (Cons node wave)
  have "filter (\<lambda>n. n \<notin> set wave) (removeAll node remaining) =
        filter (\<lambda>n. n \<notin> set (node # wave)) remaining"
    by (induction remaining) auto
  with Cons show ?case by (simp add: set_delete_def)
qed

lemma filter_out_shorter:
  assumes "x \<in> set w" "x \<in> set r"
  shows "length (filter (\<lambda>n. n \<notin> set w) r) < length r"
proof -
  have "filter (\<lambda>n. n \<notin> set w) r \<noteq> r"
    using assms by (metis (mono_tags, lifting) filter_id_conv)
  moreover have "length (filter (\<lambda>n. n \<notin> set w) r) \<le> length r" by simp
  ultimately show ?thesis
    by (metis le_neq_implies_less length_filter_less filter_True nat_less_le)
qed

lemma wave_pass_shrinks:
  assumes "wave_pass deps (completed, remaining, waves) = Inr (completed', remaining', waves')"
  shows "length remaining' < length remaining"
proof -
  from assms obtain wave where w: "scan_ready deps completed remaining = Inr wave" "wave \<noteq> []"
    and r: "remaining' = filter (\<lambda>n. n \<notin> set (sort wave)) remaining"
    by (auto simp: wave_pass_def Let_def mark_done_eq split: sum.splits if_splits)
  from w(2) obtain x where x: "x \<in> set wave" by (cases wave) auto
  with scan_ready_subset[OF w(1)] have "x \<in> set remaining" by blast
  with x show ?thesis unfolding r by (intro filter_out_shorter[of x]) auto
qed

function waves_loop ::
  "graph \<Rightarrow> string list \<times> string list \<times> string list list \<Rightarrow> error + string list list" where
  "waves_loop deps (completed, remaining, waves) =
     (if remaining = [] then Inr waves
      else (case wave_pass deps (completed, remaining, waves) of
              Inl e \<Rightarrow> Inl e
            | Inr st' \<Rightarrow> waves_loop deps st'))"
  by pat_completeness auto
termination
proof (relation "measure (\<lambda>(deps, completed, remaining, waves). length remaining)")
  show "wf (measure (\<lambda>(deps, completed, remaining, waves). length remaining))" by simp
next
  fix deps :: graph and completed remaining :: "string list" and waves :: "string list list"
    and st' :: "string list \<times> string list \<times> string list list"
  assume "remaining \<noteq> []" and p: "wave_pass deps (completed, remaining, waves) = Inr st'"
  obtain c' r' w' where st': "st' = (c', r', w')" by (cases st') auto
  from wave_pass_shrinks[OF p[unfolded st']]
  show "((deps, st'), deps, completed, remaining, waves)
        \<in> measure (\<lambda>(deps, completed, remaining, waves). length remaining)"
    by (simp add: st')
qed

definition buildExecutionWaves :: "graph \<Rightarrow> error + string list list" where
  "buildExecutionWaves deps = waves_loop deps ([], map fst deps, [])"


subsection \<open>Graph properties\<close>

text \<open>
  \<open>deps_list g n\<close> is the dependency set of \<open>n\<close> and \<open>dep_edges g\<close> the set of edges
  "\<open>n\<close> depends on \<open>d\<close>". \<open>wf_graph\<close> is what the types \<open>Map\<close> and \<open>Set\<close> guarantee of
  their list representation: distinct keys and duplicate-free dependency sets.
  \<open>closed_graph\<close> says that every dependency name is a key of the graph, \<open>acyclic_graph\<close>
  that the edge relation has no cycle. \<open>removable\<close> follows the specification of Kahn's
  algorithm: a node is deleted once all its dependencies are deleted (its in-degree among
  the undeleted nodes is zero); the nodes that are never deleted are the cyclic remainder.
\<close>

definition deps_list :: "graph \<Rightarrow> string \<Rightarrow> string list" where
  "deps_list g n = (case map_of g n of None \<Rightarrow> [] | Some ds \<Rightarrow> ds)"

definition dep_edges :: "graph \<Rightarrow> (string \<times> string) set" where
  "dep_edges g = set (concat (map (\<lambda>n. map (Pair n) (deps_list g n)) (map fst g)))"

definition wf_graph :: "graph \<Rightarrow> bool" where
  "wf_graph g = (distinct (map fst g) \<and> list_all (\<lambda>(n, ds). distinct ds) g)"

definition closed_graph :: "graph \<Rightarrow> bool" where
  "closed_graph g = list_all (\<lambda>(n, ds). list_all (\<lambda>d. d \<in> set (map fst g)) ds) g"

definition acyclic_graph :: "graph \<Rightarrow> bool" where
  "acyclic_graph g = acyclic (dep_edges g)"

inductive removable :: "graph \<Rightarrow> string \<Rightarrow> bool" for g :: graph where
  removableI: "map_of g n = Some ds \<Longrightarrow> (\<forall>d \<in> set ds. removable g d) \<Longrightarrow> removable g n"

lemma dep_edges_iff:
  "(n, d) \<in> dep_edges g \<longleftrightarrow> (\<exists>ds. map_of g n = Some ds \<and> d \<in> set ds)"
proof
  assume "(n, d) \<in> dep_edges g"
  then show "\<exists>ds. map_of g n = Some ds \<and> d \<in> set ds"
    by (auto simp: dep_edges_def deps_list_def split: option.splits) metis
next
  assume "\<exists>ds. map_of g n = Some ds \<and> d \<in> set ds"
  then obtain ds where ds: "map_of g n = Some ds" "d \<in> set ds" by blast
  then have "n \<in> set (map fst g)" by (auto dest: map_of_SomeD intro: rev_image_eqI)
  moreover have "d \<in> set (deps_list g n)" using ds by (simp add: deps_list_def)
  ultimately show "(n, d) \<in> dep_edges g"
    unfolding dep_edges_def by (auto intro!: bexI[of _ n])
qed

lemma removable_key: "removable g n \<Longrightarrow> n \<in> set (map fst g)"
  by (induction rule: removable.induct) (auto dest: map_of_SomeD intro: rev_image_eqI)

lemma closed_graphD:
  "closed_graph g \<Longrightarrow> map_of g n = Some ds \<Longrightarrow> d \<in> set ds \<Longrightarrow> d \<in> set (map fst g)"
  unfolding closed_graph_def list_all_iff by (auto dest!: map_of_SomeD)

lemma all_removable_imp_closed:
  assumes "distinct (map fst g)" "\<forall>n \<in> set (map fst g). removable g n"
  shows "closed_graph g"
  unfolding closed_graph_def list_all_iff
proof (clarsimp)
  fix n ds d assume nd: "(n, ds) \<in> set g" "d \<in> set ds"
  with assms(1) have m: "map_of g n = Some ds" by simp
  from nd assms(2) have "removable g n" by force
  then have "removable g d" using m nd(2) by (cases rule: removable.cases) auto
  from removable_key[OF this] show "d \<in> fst ` set g" by simp
qed

lemma all_removable_imp_acyclic:
  assumes "\<forall>n \<in> set (map fst g). removable g n"
  shows "acyclic_graph g"
proof -
  have "wf ((dep_edges g)\<inverse>)"
    unfolding wf_def
  proof (intro allI impI)
    fix P :: "string \<Rightarrow> bool" and x
    assume step: "\<forall>x. (\<forall>y. (y, x) \<in> (dep_edges g)\<inverse> \<longrightarrow> P y) \<longrightarrow> P x"
    have rem: "removable g n \<Longrightarrow> P n" for n
    proof (induction rule: removable.induct)
      case (removableI n ds)
      have "\<forall>y. (y, n) \<in> (dep_edges g)\<inverse> \<longrightarrow> P y"
        using removableI by (auto simp: dep_edges_iff)
      with step show ?case by blast
    qed
    show "P x"
    proof (cases "x \<in> set (map fst g)")
      case True with assms rem show ?thesis by blast
    next
      case False
      then have "map_of g x = None" by (simp add: map_of_eq_None_iff)
      then have "\<forall>y. (y, x) \<in> (dep_edges g)\<inverse> \<longrightarrow> P y" by (simp add: dep_edges_iff)
      with step show ?thesis by blast
    qed
  qed
  then have "acyclic ((dep_edges g)\<inverse>)" by (rule wf_acyclic)
  then show ?thesis by (simp add: acyclic_graph_def)
qed

lemma finite_dep_edges: "finite (dep_edges g)"
  by (simp add: dep_edges_def)

lemma closed_acyclic_imp_removable:
  assumes "closed_graph g" "acyclic_graph g" "n \<in> set (map fst g)"
  shows "removable g n"
proof -
  have "wf ((dep_edges g)\<inverse>)"
    using assms(2) finite_dep_edges unfolding acyclic_graph_def
    by (simp add: finite_acyclic_wf_converse)
  then show ?thesis using assms(3)
  proof (induction n rule: wf_induct_rule)
    case (less n)
    then obtain ds where ds: "map_of g n = Some ds"
      by (metis map_of_eq_None_iff not_Some_eq set_map)
    have "removable g d" if "d \<in> set ds" for d
      using less.IH[of d] that ds closed_graphD[OF assms(1) ds that]
      by (auto simp: dep_edges_iff)
    with ds show ?case by (auto intro: removableI)
  qed
qed

lemma all_removable_iff:
  assumes "distinct (map fst g)"
  shows "(\<forall>n \<in> set (map fst g). removable g n) \<longleftrightarrow> closed_graph g \<and> acyclic_graph g"
  using all_removable_imp_closed[OF assms] all_removable_imp_acyclic
    closed_acyclic_imp_removable by blast


definition dep_ordered :: "graph \<Rightarrow> string list list \<Rightarrow> bool" where
  "dep_ordered g ws =
     (\<forall>k < length ws. \<forall>a \<in> set (ws ! k). \<forall>d \<in> set (deps_list g a). \<exists>j < k. d \<in> set (ws ! j))"

definition waves_inv :: "graph \<Rightarrow> string list \<times> string list \<times> string list list \<Rightarrow> bool" where
  "waves_inv g st =
     (case st of (c, r, ws) \<Rightarrow>
        set c = set (concat ws) \<and> set r \<inter> set c = {} \<and> set r \<union> set c = set (map fst g) \<and>
        distinct r \<and> distinct (concat ws) \<and> [] \<notin> set ws \<and> dep_ordered g ws)"

lemma scan_ready_total:
  "set r \<subseteq> set (map fst g) \<Longrightarrow> \<exists>w. scan_ready g c r = Inr w"
proof (induction r)
  case Nil
  show ?case by simp
next
  case (Cons n r)
  then obtain w where w: "scan_ready g c r = Inr w" by auto
  from Cons.prems obtain ds where "map_of g n = Some ds"
    by (metis list.set_intros(1) map_of_eq_None_iff not_Some_eq set_map subsetD)
  with w show ?case by simp
qed

lemma deps_list_Some: "map_of g n = Some ds \<Longrightarrow> deps_list g n = ds"
  by (simp add: deps_list_def)

lemma scan_ready_deps:
  "scan_ready g c r = Inr w \<Longrightarrow> w = filter (\<lambda>n. set (deps_list g n) \<subseteq> set c) r"
proof (induction r arbitrary: w)
  case Nil
  then show ?case by simp
next
  case (Cons n r)
  from Cons.prems obtain ds w0 where ds: "map_of g n = Some ds"
    and w0: "scan_ready g c r = Inr w0"
    and w: "w = (if list_all (\<lambda>dep. dep \<in> set c) ds then n # w0 else w0)"
    by (auto split: option.splits sum.splits)
  from Cons.IH[OF w0] w show ?case
    by (auto simp: deps_list_Some[OF ds] list_all_iff)
qed

lemma set_fold_set_add: "set (fold set_add w c) = set c \<union> set w"
  by (induction w arbitrary: c) (auto simp: set_add_def)

lemma wave_pass_Inr:
  assumes "wave_pass g (c, r, ws) = Inr (c', r', ws')"
  obtains w where "w = sort (filter (\<lambda>n. set (deps_list g n) \<subseteq> set c) r)" "w \<noteq> []"
    "r' = filter (\<lambda>n. n \<notin> set w) r" "set c' = set c \<union> set w" "ws' = ws @ [w]"
proof -
  from assms obtain w0 where w0: "scan_ready g c r = Inr w0" "w0 \<noteq> []"
    and r: "r' = filter (\<lambda>n. n \<notin> set (sort w0)) r"
    and c: "c' = fold set_add (sort w0) c" and ws: "ws' = ws @ [sort w0]"
    by (auto simp: wave_pass_def Let_def mark_done_eq split: sum.splits if_splits)
  from w0(2) have "sort w0 \<noteq> []" by (metis length_0_conv length_sort)
  with scan_ready_deps[OF w0(1)] r c ws that[of "sort w0"] show ?thesis
    by (simp add: set_fold_set_add)
qed

lemma wave_pass_Inl:
  assumes "wave_pass g (c, r, ws) = Inl e" "set r \<subseteq> set (map fst g)"
  shows "e = Deadlock r \<and> scan_ready g c r = Inr []"
proof -
  from scan_ready_total[OF assms(2)] obtain w where "scan_ready g c r = Inr w" by blast
  with assms(1) show ?thesis
    by (auto simp: wave_pass_def Let_def split: if_splits prod.splits)
qed

lemma dep_ordered_snoc:
  assumes "dep_ordered g ws" "\<forall>a \<in> set w. set (deps_list g a) \<subseteq> set (concat ws)"
  shows "dep_ordered g (ws @ [w])"
  unfolding dep_ordered_def
proof (intro allI impI ballI)
  fix k a d
  assume k: "k < length (ws @ [w])" and a: "a \<in> set ((ws @ [w]) ! k)"
    and d: "d \<in> set (deps_list g a)"
  show "\<exists>j<k. d \<in> set ((ws @ [w]) ! j)"
  proof (cases "k < length ws")
    case True
    with a have "a \<in> set (ws ! k)" by (simp add: nth_append)
    with assms(1) True d obtain j where "j < k" "d \<in> set (ws ! j)"
      unfolding dep_ordered_def by blast
    with True show ?thesis by (auto simp: nth_append intro!: exI[of _ j])
  next
    case False
    with k have keq: "k = length ws" by simp
    with a have "a \<in> set w" by simp
    with assms(2) d have "d \<in> set (concat ws)" by blast
    then obtain x where "x \<in> set ws" "d \<in> set x" by auto
    then obtain j where "j < length ws" "d \<in> set (ws ! j)"
      by (metis in_set_conv_nth)
    with keq show ?thesis by (auto simp: nth_append intro!: exI[of _ j])
  qed
qed

lemma waves_inv_step:
  assumes "waves_inv g (c, r, ws)" "wave_pass g (c, r, ws) = Inr st'"
  shows "waves_inv g st'"
proof -
  obtain c' r' ws' where st': "st' = (c', r', ws')" by (cases st') auto
  from assms(2)[unfolded st'] obtain w
    where w: "w = sort (filter (\<lambda>n. set (deps_list g n) \<subseteq> set c) r)" "w \<noteq> []"
      and r': "r' = filter (\<lambda>n. n \<notin> set w) r" and c': "set c' = set c \<union> set w"
      and ws': "ws' = ws @ [w]"
    by (rule wave_pass_Inr)
  from assms(1) have inv: "set c = set (concat ws)" "set r \<inter> set c = {}"
    "set r \<union> set c = set (map fst g)" "distinct r" "distinct (concat ws)"
    "[] \<notin> set ws" "dep_ordered g ws"
    by (auto simp: waves_inv_def)
  have sw: "set w = {n \<in> set r. set (deps_list g n) \<subseteq> set c}" using w(1) by auto
  have dw: "distinct w" using w(1) inv(4) by simp
  have "set c' = set (concat ws')" using c' ws' inv(1) by auto
  moreover have "set r' \<inter> set c' = {}" using r' c' inv(2) by auto
  moreover have "set r' \<union> set c' = set (map fst g)" using r' c' inv(3) sw by auto
  moreover have "distinct r'" using r' inv(4) by simp
  moreover have "distinct (concat ws')" using ws' inv(5) dw sw inv(1,2) by auto
  moreover have "[] \<notin> set ws'" using ws' inv(6) w(2) by auto
  moreover have "dep_ordered g ws'" unfolding ws'
    using dep_ordered_snoc[OF inv(7), of w] sw inv(1) by auto
  ultimately show ?thesis by (simp add: waves_inv_def st')
qed

lemma waves_loop_inv:
  assumes "waves_inv g st"
  shows "(\<exists>ws c. waves_loop g st = Inr ws \<and> waves_inv g (c, [], ws)) \<or>
         (\<exists>c r ws. waves_loop g st = Inl (Deadlock r) \<and> r \<noteq> [] \<and> waves_inv g (c, r, ws) \<and>
             scan_ready g c r = Inr [])"
  using assms
proof (induction g st rule: waves_loop.induct)
  case (1 deps completed remaining waves)
  show ?case
  proof (cases "remaining = []")
    case True
    with "1.prems" show ?thesis by auto
  next
    case ne: False
    from "1.prems" have sub: "set remaining \<subseteq> set (map fst deps)"
      by (auto simp: waves_inv_def)
    show ?thesis
    proof (cases "wave_pass deps (completed, remaining, waves)")
      case (Inl e)
      from wave_pass_Inl[OF Inl sub] Inl ne "1.prems" show ?thesis
        by (intro disjI2) (auto intro!: exI[of _ completed] exI[of _ waves])
    next
      case (Inr st')
      from waves_inv_step[OF "1.prems" Inr] have "waves_inv deps st'" .
      from "1.IH"[OF ne Inr this] ne Inr show ?thesis by simp
    qed
  qed
qed

lemma waves_inv_init: "distinct (map fst g) \<Longrightarrow> waves_inv g ([], map fst g, [])"
  by (simp add: waves_inv_def dep_ordered_def)

lemma stuck_not_removable:
  assumes "removable g n" "n \<in> set r" "set r \<union> set c = set (map fst g)"
  shows "\<exists>m \<in> set r. set (deps_list g m) \<subseteq> set c"
  using assms
proof (induction rule: removable.induct)
  case (removableI n ds)
  note m = removableI(1) and ih = removableI(2) and nr = removableI(3) and cover = removableI(4)
  show ?case
  proof (cases "\<exists>d \<in> set ds. d \<in> set r")
    case True
    with ih cover show ?thesis by blast
  next
    case False
    have "d \<in> set c" if "d \<in> set ds" for d
    proof -
      from ih that have "removable g d" by blast
      from removable_key[OF this] False that cover show ?thesis by blast
    qed
    with m nr show ?thesis
      by (auto simp: deps_list_def intro!: bexI[of _ n])
  qed
qed

lemma dep_ordered_removable:
  assumes "dep_ordered g ws" "set (concat ws) \<subseteq> set (map fst g)"
  shows "k < length ws \<Longrightarrow> a \<in> set (ws ! k) \<Longrightarrow> removable g a"
proof (induction k arbitrary: a rule: less_induct)
  case (less k)
  from less.prems assms(2) have "a \<in> set (map fst g)"
    by (auto simp: subset_iff) (metis nth_mem)
  then obtain ds where ds: "map_of g a = Some ds"
    by (metis map_of_eq_None_iff not_Some_eq set_map)
  have "removable g d" if "d \<in> set ds" for d
  proof -
    from that ds have "d \<in> set (deps_list g a)" by (simp add: deps_list_def)
    with assms(1) less.prems obtain j where "j < k" "d \<in> set (ws ! j)"
      unfolding dep_ordered_def by blast
    with less.IH[of j d] less.prems(1) show ?thesis by simp
  qed
  with ds show ?case by (auto intro: removableI)
qed

lemma wf_graph_distinct: "wf_graph g \<Longrightarrow> distinct (map fst g)"
  by (simp add: wf_graph_def)

lemma waves_invD:
  assumes "waves_inv g (c, r, ws)"
  shows "set c = set (concat ws)" "set r \<inter> set c = {}" "set r \<union> set c = set (map fst g)"
    "distinct r" "distinct (concat ws)" "[] \<notin> set ws" "dep_ordered g ws"
  using assms unfolding waves_inv_def prod.case by blast+

lemma buildExecutionWaves_cases:
  assumes "distinct (map fst g)"
  shows "(\<exists>ws c. buildExecutionWaves g = Inr ws \<and> waves_inv g (c, [], ws)) \<or>
         (\<exists>c r ws. buildExecutionWaves g = Inl (Deadlock r) \<and> r \<noteq> [] \<and>
             waves_inv g (c, r, ws) \<and> scan_ready g c r = Inr [])"
  unfolding buildExecutionWaves_def
  by (rule waves_loop_inv[OF waves_inv_init[OF assms]])

lemma deadlock_not_all_removable:
  assumes "waves_inv g (c, r, ws)" "r \<noteq> []" "scan_ready g c r = Inr []"
  shows "\<exists>n \<in> set (map fst g). \<not> removable g n"
proof -
  from assms(2) obtain n where n: "n \<in> set r" by (cases r) auto
  note cover = waves_invD(3)[OF assms(1)]
  have "\<not> removable g n"
  proof
    assume "removable g n"
    from stuck_not_removable[OF this n cover] obtain m
      where "m \<in> set r" "set (deps_list g m) \<subseteq> set c" by blast
    with scan_ready_deps[OF assms(3)] show False
      by (metis (mono_tags, lifting) filter_empty_conv)
  qed
  with n cover show ?thesis by blast
qed

lemma waves_final_removable:
  assumes "waves_inv g (c, [], ws)" "n \<in> set (map fst g)"
  shows "removable g n"
proof -
  note ds = waves_invD[OF assms(1)]
  from ds(1,3) have cov: "set (concat ws) = set (map fst g)" by simp
  note ord = ds(7)
  from assms(2) cov have "n \<in> set (concat ws)" by simp
  then obtain w where "w \<in> set ws" "n \<in> set w" by auto
  then obtain k where "k < length ws" "n \<in> set (ws ! k)" by (metis in_set_conv_nth)
  with dep_ordered_removable[OF ord] cov show ?thesis by blast
qed

lemma buildExecutionWaves_Inr_iff:
  assumes "distinct (map fst g)"
  shows "(\<exists>ws. buildExecutionWaves g = Inr ws) \<longleftrightarrow> (\<forall>n \<in> set (map fst g). removable g n)"
proof
  assume "\<exists>ws. buildExecutionWaves g = Inr ws"
  with buildExecutionWaves_cases[OF assms] obtain ws c
    where "waves_inv g (c, [], ws)" by auto
  with waves_final_removable show "\<forall>n \<in> set (map fst g). removable g n" by blast
next
  assume all: "\<forall>n \<in> set (map fst g). removable g n"
  from buildExecutionWaves_cases[OF assms] show "\<exists>ws. buildExecutionWaves g = Inr ws"
  proof
    assume "\<exists>ws c. buildExecutionWaves g = Inr ws \<and> waves_inv g (c, [], ws)"
    then show ?thesis by blast
  next
    assume "\<exists>c r ws. buildExecutionWaves g = Inl (Deadlock r) \<and> r \<noteq> [] \<and>
             waves_inv g (c, r, ws) \<and> scan_ready g c r = Inr []"
    with deadlock_not_all_removable all show ?thesis by blast
  qed
qed

text \<open>
  C1. For every acyclic dependency graph (a \<open>Map\<close> with distinct keys whose dependency
  names are all keys), \<open>buildExecutionWaves\<close> returns waves that are non-empty and pairwise
  disjoint, that together hold every agent name exactly once, and in which every dependency
  of an agent of wave \<open>k\<close> lies in a wave of smaller index.
\<close>

theorem buildExecutionWaves_acyclic:
  assumes "wf_graph g" and "closed_graph g" and "acyclic_graph g"
  shows "\<exists>ws. buildExecutionWaves g = Inr ws \<and> [] \<notin> set ws \<and> distinct (concat ws) \<and>
           set (concat ws) = set (map fst g) \<and>
           (\<forall>k < length ws. \<forall>a \<in> set (ws ! k). \<forall>d \<in> set (deps_list g a).
              \<exists>j < k. d \<in> set (ws ! j))"
proof -
  note d = wf_graph_distinct[OF assms(1)]
  from assms(2,3) all_removable_iff[OF d] have "\<forall>n \<in> set (map fst g). removable g n" by blast
  with buildExecutionWaves_Inr_iff[OF d] obtain ws where ws: "buildExecutionWaves g = Inr ws"
    by blast
  with buildExecutionWaves_cases[OF d] obtain c where "waves_inv g (c, [], ws)" by auto
  note ds = waves_invD[OF this]
  from ds(1,3) have "set (concat ws) = set (map fst g)" by simp
  with ds(5,6,7) ws show ?thesis unfolding dep_ordered_def by blast
qed

lemma acyclic_graph_rank:
  assumes "\<And>n d. (n, d) \<in> dep_edges g \<Longrightarrow> f d < (f n :: nat)"
  shows "acyclic_graph g"
  unfolding acyclic_graph_def
proof (rule acyclicI_order[where f = f])
  fix a b assume "(a, b) \<in> dep_edges g"
  with assms show "f b < f a" by blast
qed

theorem buildExecutionWaves_acyclic_witness:
  "wf_graph [(''A'', []), (''B'', [''A'']), (''C'', [''B''])] \<and>
   closed_graph [(''A'', []), (''B'', [''A'']), (''C'', [''B''])] \<and>
   acyclic_graph [(''A'', []), (''B'', [''A'']), (''C'', [''B''])] \<and>
   buildExecutionWaves [(''A'', []), (''B'', [''A'']), (''C'', [''B''])]
     = Inr [[''A''], [''B''], [''C'']] \<and>
   (\<exists>ws. buildExecutionWaves [(''A'', []), (''B'', [''A'']), (''C'', [''B''])] = Inr ws \<and>
      [] \<notin> set ws \<and> distinct (concat ws) \<and>
      set (concat ws) = set (map fst [(''A'', []), (''B'', [''A'']), (''C'', [''B''])]) \<and>
      (\<forall>k < length ws. \<forall>a \<in> set (ws ! k).
         \<forall>d \<in> set (deps_list [(''A'', []), (''B'', [''A'']), (''C'', [''B''])] a).
           \<exists>j < k. d \<in> set (ws ! j)))"
proof -
  let ?g = "[(''A'', []), (''B'', [''A'']), (''C'', [''B''])] :: graph"
  have h1: "wf_graph ?g" by (simp add: wf_graph_def)
  have h2: "closed_graph ?g" by (simp add: closed_graph_def)
  have h3: "acyclic_graph ?g"
    by (rule acyclic_graph_rank[where f = "\<lambda>s. if s = ''A'' then 0 else if s = ''B'' then 1 else 2"])
       (auto simp: dep_edges_def deps_list_def)
  have h4: "buildExecutionWaves ?g = Inr [[''A''], [''B''], [''C'']]" by code_simp
  from buildExecutionWaves_acyclic[OF h1 h2 h3] h1 h2 h3 h4 show ?thesis by blast
qed

lemma wave_pass_progress:
  assumes "set r \<subseteq> set (map fst g)"
  shows "wave_pass g (c, r, ws) = Inl (Deadlock r) \<or>
         (\<exists>c' r' ws'. wave_pass g (c, r, ws) = Inr (c', r', ws') \<and>
            length r' < length r \<and> set r' \<subset> set r \<and> length ws' = Suc (length ws))"
proof (cases "wave_pass g (c, r, ws)")
  case (Inl e)
  from wave_pass_Inl[OF Inl assms] Inl show ?thesis by simp
next
  case (Inr st')
  obtain c' r' ws' where st': "st' = (c', r', ws')" by (cases st') auto
  from Inr[unfolded st'] obtain w where w: "w \<noteq> []"
    "w = sort (filter (\<lambda>n. set (deps_list g n) \<subseteq> set c) r)"
    and r': "r' = filter (\<lambda>n. n \<notin> set w) r" and ws': "ws' = ws @ [w]"
    by (rule wave_pass_Inr)
  from w(1) obtain x where x: "x \<in> set w" by (cases w) auto
  with w(2) have xr: "x \<in> set r" by auto
  from x xr r' have "set r' \<subset> set r" by auto
  moreover note wave_pass_shrinks[OF Inr[unfolded st']]
  ultimately show ?thesis using Inr st' ws' by simp
qed

lemma waves_loop_bounded:
  assumes "set r \<subseteq> set (map fst g)" "length ws + length r \<le> N"
  shows "(\<exists>ws'. waves_loop g (c, r, ws) = Inr ws' \<and> length ws' \<le> N) \<or>
         (\<exists>r'. waves_loop g (c, r, ws) = Inl (Deadlock r') \<and> r' \<noteq> [])"
  using assms
proof (induction g "(c, r, ws)" arbitrary: c r ws rule: waves_loop.induct)
  case (1 deps completed remaining waves)
  show ?case
  proof (cases "remaining = []")
    case True
    with "1.prems" show ?thesis by simp
  next
    case ne: False
    from wave_pass_progress[OF "1.prems"(1), of completed waves] show ?thesis
    proof
      assume "wave_pass deps (completed, remaining, waves) = Inl (Deadlock remaining)"
      with ne show ?thesis by simp
    next
      assume "\<exists>c' r' ws'. wave_pass deps (completed, remaining, waves) = Inr (c', r', ws') \<and>
            length r' < length remaining \<and> set r' \<subset> set remaining \<and>
            length ws' = Suc (length waves)"
      then obtain c' r' ws' where p: "wave_pass deps (completed, remaining, waves) = Inr (c', r', ws')"
        and l: "length r' < length remaining" "set r' \<subset> set remaining"
          "length ws' = Suc (length waves)"
        by blast
      from l "1.prems" have "set r' \<subseteq> set (map fst deps)" "length ws' + length r' \<le> N"
        by auto
      from "1.hyps"[OF ne p this] ne p show ?thesis by simp
    qed
  qed
qed

text \<open>
  C10. \<open>buildExecutionWaves\<close> terminates on every graph, cyclic or not. A pass over a set of
  remaining nodes either throws the no-progress error or leaves strictly fewer nodes, so
  the loop (a total function, by the measure \<open>length remaining\<close>) returns at most one wave
  per key or raises the deadlock error; no other error can occur.
\<close>

theorem buildExecutionWaves_terminates:
  "(\<forall>c r ws. set r \<subseteq> set (map fst g) \<longrightarrow>
      wave_pass g (c, r, ws) = Inl (Deadlock r) \<or>
      (\<exists>c' r' ws'. wave_pass g (c, r, ws) = Inr (c', r', ws') \<and>
         length r' < length r \<and> set r' \<subset> set r)) \<and>
   ((\<exists>ws. buildExecutionWaves g = Inr ws \<and> length ws \<le> length g) \<or>
    (\<exists>r. buildExecutionWaves g = Inl (Deadlock r) \<and> r \<noteq> []))"
proof -
  have "length ([] :: string list list) + length (map fst g) \<le> length g" by simp
  from waves_loop_bounded[OF subset_refl this]
  have "(\<exists>ws. buildExecutionWaves g = Inr ws \<and> length ws \<le> length g) \<or>
    (\<exists>r. buildExecutionWaves g = Inl (Deadlock r) \<and> r \<noteq> [])"
    by (simp add: buildExecutionWaves_def)
  moreover have "\<forall>c r ws. set r \<subseteq> set (map fst g) \<longrightarrow>
      wave_pass g (c, r, ws) = Inl (Deadlock r) \<or>
      (\<exists>c' r' ws'. wave_pass g (c, r, ws) = Inr (c', r', ws') \<and>
         length r' < length r \<and> set r' \<subset> set r)"
    using wave_pass_progress by blast
  ultimately show ?thesis by blast
qed

theorem buildExecutionWaves_terminates_witness:
  "set [''M'', ''N''] \<subseteq> set (map fst [(''M'', [''N'']), (''N'', [''M'']), (''O'', [])]) \<and>
   wave_pass [(''M'', [''N'']), (''N'', [''M'']), (''O'', [])] ([''O''], [''M'', ''N''], [[''O'']])
     = Inl (Deadlock [''M'', ''N'']) \<and>
   (\<exists>c' r' ws'.
      wave_pass [(''M'', [''N'']), (''N'', [''M'']), (''O'', [])] ([], [''M'', ''N'', ''O''], [])
        = Inr (c', r', ws') \<and>
      length r' < length [''M'', ''N'', ''O''] \<and> set r' \<subset> set [''M'', ''N'', ''O'']) \<and>
   buildExecutionWaves [(''M'', [''N'']), (''N'', [''M'']), (''O'', [])]
     = Inl (Deadlock [''M'', ''N''])"
proof -
  let ?g = "[(''M'', [''N'']), (''N'', [''M'']), (''O'', [])] :: graph"
  have h1: "set [''M'', ''N''] \<subseteq> set (map fst ?g)" by simp
  have h2: "set [''M'', ''N'', ''O''] \<subseteq> set (map fst ?g)" by simp
  have e1: "wave_pass ?g ([''O''], [''M'', ''N''], [[''O'']]) = Inl (Deadlock [''M'', ''N''])"
    by code_simp
  have e2: "wave_pass ?g ([], [''M'', ''N'', ''O''], []) \<noteq> Inl (Deadlock [''M'', ''N'', ''O''])"
    by code_simp
  have e3: "buildExecutionWaves ?g = Inl (Deadlock [''M'', ''N''])" by code_simp
  from buildExecutionWaves_terminates[of ?g] h2 e2
  have "\<exists>c' r' ws'. wave_pass ?g ([], [''M'', ''N'', ''O''], []) = Inr (c', r', ws') \<and>
      length r' < length [''M'', ''N'', ''O''] \<and> set r' \<subset> set [''M'', ''N'', ''O'']"
    by blast
  with h1 e1 e3 show ?thesis by blast
qed

text \<open>
  C5. The deadlock error is raised by a pass that finds no ready node although nodes
  remain, and only by such a pass; on a \<open>Map\<close>-shaped graph the function returns waves
  exactly when the graph is acyclic with every dependency name a key, so it never throws
  on acyclic input.
\<close>

theorem buildExecutionWaves_deadlock:
  assumes "wf_graph g"
  shows "(\<forall>c r ws. r \<noteq> [] \<and> scan_ready g c r = Inr [] \<longrightarrow>
            waves_loop g (c, r, ws) = Inl (Deadlock r)) \<and>
         (\<forall>e. buildExecutionWaves g = Inl e \<longrightarrow>
            (\<exists>c r. e = Deadlock r \<and> r \<noteq> [] \<and> set r \<inter> set c = {} \<and>
               set r \<union> set c = set (map fst g) \<and> scan_ready g c r = Inr [])) \<and>
         (closed_graph g \<and> acyclic_graph g \<longleftrightarrow> (\<exists>ws. buildExecutionWaves g = Inr ws))"
proof -
  note d = wf_graph_distinct[OF assms]
  have a: "waves_loop g (c, r, ws) = Inl (Deadlock r)"
    if "r \<noteq> []" "scan_ready g c r = Inr []" for c r ws
    using that by (simp add: wave_pass_def)
  have b: "\<exists>c r. e = Deadlock r \<and> r \<noteq> [] \<and> set r \<inter> set c = {} \<and>
               set r \<union> set c = set (map fst g) \<and> scan_ready g c r = Inr []"
    if e: "buildExecutionWaves g = Inl e" for e
  proof -
    from buildExecutionWaves_cases[OF d] e obtain c r ws
      where r: "e = Deadlock r" "r \<noteq> []" "scan_ready g c r = Inr []"
        and inv: "waves_inv g (c, r, ws)"
      by auto
    from waves_invD(2,3)[OF inv] r show ?thesis by blast
  qed
  from a b all_removable_iff[OF d] buildExecutionWaves_Inr_iff[OF d] show ?thesis by blast
qed

theorem buildExecutionWaves_deadlock_witness:
  "wf_graph [(''X'', []), (''Y'', [''X''])] \<and>
   closed_graph [(''X'', []), (''Y'', [''X''])] \<and> acyclic_graph [(''X'', []), (''Y'', [''X''])] \<and>
   (\<exists>ws. buildExecutionWaves [(''X'', []), (''Y'', [''X''])] = Inr ws) \<and>
   [''Y''] \<noteq> [] \<and> scan_ready [(''X'', []), (''Y'', [''X''])] [] [''Y''] = Inr [] \<and>
   waves_loop [(''X'', []), (''Y'', [''X''])] ([], [''Y''], []) = Inl (Deadlock [''Y'']) \<and>
   wf_graph [(''M'', [''N'']), (''N'', [''M''])] \<and>
   buildExecutionWaves [(''M'', [''N'']), (''N'', [''M''])] = Inl (Deadlock [''M'', ''N'']) \<and>
   (\<exists>c r. Deadlock [''M'', ''N''] = Deadlock r \<and> r \<noteq> [] \<and> set r \<inter> set c = {} \<and>
      set r \<union> set c = set (map fst [(''M'', [''N'']), (''N'', [''M''])]) \<and>
      scan_ready [(''M'', [''N'']), (''N'', [''M''])] c r = Inr []) \<and>
   \<not> (closed_graph [(''M'', [''N'']), (''N'', [''M''])] \<and>
      acyclic_graph [(''M'', [''N'']), (''N'', [''M''])])"
proof -
  let ?g = "[(''X'', []), (''Y'', [''X''])] :: graph"
  let ?c = "[(''M'', [''N'']), (''N'', [''M''])] :: graph"
  have h1: "wf_graph ?g" by (simp add: wf_graph_def)
  have h2: "closed_graph ?g" by (simp add: closed_graph_def)
  have h3: "acyclic_graph ?g"
    by (rule acyclic_graph_rank[where f = "\<lambda>s. if s = ''X'' then 0 else 1"])
       (auto simp: dep_edges_def deps_list_def)
  have h4: "scan_ready ?g [] [''Y''] = Inr []" by simp
  have k1: "wf_graph ?c" by (simp add: wf_graph_def)
  have k2: "buildExecutionWaves ?c = Inl (Deadlock [''M'', ''N''])" by code_simp
  from buildExecutionWaves_deadlock[OF h1] h1 h2 h3 h4
  have a: "(\<exists>ws. buildExecutionWaves ?g = Inr ws) \<and>
      waves_loop ?g ([], [''Y''], []) = Inl (Deadlock [''Y''])"
    by blast
  from buildExecutionWaves_deadlock[OF k1] k2
  have b: "(\<exists>c r. Deadlock [''M'', ''N''] = Deadlock r \<and> r \<noteq> [] \<and> set r \<inter> set c = {} \<and>
      set r \<union> set c = set (map fst ?c) \<and> scan_ready ?c c r = Inr []) \<and>
      \<not> (closed_graph ?c \<and> acyclic_graph ?c)"
    by (metis sum.distinct(1))
  from a b h1 h2 h3 h4 k1 k2 show ?thesis by simp
qed

subsection \<open>detectCycles (swarm/dag.ts)\<close>

text \<open>
  \<open>inDegree\<close> is a \<open>Map<string, number>\<close> and \<open>forward\<close> a \<open>Map<string, string[]>\<close> from a
  dependency to its dependents. \<open>forward.get(dep) ?? []\<close> is \<open>forward_get\<close>. The first loop
  fills both tables; \<open>nodeDeps.size\<close> is the length of the duplicate-free list.
  In \<open>relax\<close> (the body of the inner \<open>for\<close> of the queue loop) \<open>inDegree.get(dependent)!\<close> of
  a missing key would give \<open>undefined - 1\<close>, that is \<open>NaN\<close>, which is stored and never
  \<open>=== 0\<close>; a \<open>NaN\<close> entry reads like a missing one ever after, so that branch leaves the
  table as it is and pushes nothing. The array \<open>sorted\<close> of the source is \<open>sortedNodes\<close>.
\<close>

type_synonym degrees = "(string \<times> int) list"
type_synonym forward = "(string \<times> string list) list"

definition forward_get :: "forward \<Rightarrow> string \<Rightarrow> string list" where
  "forward_get forward k = (case map_of forward k of None \<Rightarrow> [] | Some list \<Rightarrow> list)"

definition add_forward :: "string \<Rightarrow> string \<Rightarrow> forward \<Rightarrow> forward" where
  "add_forward node dep forward = AList.update dep (forward_get forward dep @ [node]) forward"

fun build_tables :: "graph \<Rightarrow> degrees \<times> forward \<Rightarrow> degrees \<times> forward" where
  "build_tables [] tables = tables"
| "build_tables ((node, nodeDeps) # rest) (inDegree, forward) =
     build_tables rest
       (AList.update node (int (length nodeDeps)) inDegree,
        fold (add_forward node) nodeDeps forward)"

definition relax :: "string \<Rightarrow> degrees \<times> string list \<Rightarrow> degrees \<times> string list" where
  "relax dependent st =
     (case st of (inDegree, queue) \<Rightarrow>
        (case map_of inDegree dependent of
           None \<Rightarrow> (inDegree, queue)
         | Some degree \<Rightarrow>
             (let newDegree = degree - 1 in
              (AList.update dependent newDegree inDegree,
               if newDegree = 0 then queue @ [dependent] else queue))))"

definition kahn_measure :: "degrees \<times> string list \<Rightarrow> nat" where
  "kahn_measure st = (case st of (inDegree, queue) \<Rightarrow>
      length queue + sum_list (map (\<lambda>(k, d). nat d) inDegree))"

lemma sum_update:
  "map_of al k = Some d \<Longrightarrow>
   sum_list (map (\<lambda>(k, d). nat d) (AList.update k v al)) + nat d =
   sum_list (map (\<lambda>(k, d). nat d) al) + nat v"
  by (induction al) (auto split: if_splits)

lemma relax_measure: "kahn_measure (relax n st) \<le> kahn_measure st"
proof -
  obtain inD q where st: "st = (inD, q)" by (cases st) auto
  show ?thesis
  proof (cases "map_of inD n")
    case None
    then show ?thesis by (simp add: st relax_def)
  next
    case (Some d)
    from sum_update[OF Some, of "d - 1"] Some show ?thesis
      by (auto simp: st relax_def kahn_measure_def Let_def)
  qed
qed

lemma fold_relax_measure: "kahn_measure (fold relax ds st) \<le> kahn_measure st"
proof (induction ds arbitrary: st)
  case Nil
  show ?case by simp
next
  case (Cons n ds)
  have "kahn_measure (fold relax ds (relax n st)) \<le> kahn_measure (relax n st)" by (rule Cons.IH)
  also have "\<dots> \<le> kahn_measure st" by (rule relax_measure)
  finally show ?case by simp
qed

function kahn_loop :: "forward \<Rightarrow> degrees \<times> string list \<times> string list \<Rightarrow> string list" where
  "kahn_loop forward (inDegree, queue, sortedNodes) =
     (case queue of
        [] \<Rightarrow> sortedNodes
      | node # rest \<Rightarrow>
          (case fold relax (forward_get forward node) (inDegree, rest) of
             (inDegree', queue') \<Rightarrow> kahn_loop forward (inDegree', queue', sortedNodes @ [node])))"
  by pat_completeness auto
termination
proof (relation "measure (\<lambda>(forward, inDegree, queue, sortedNodes). kahn_measure (inDegree, queue))",
    goal_cases)
  case 1
  show ?case by simp
next
  case (2 forward inDegree queue sortedNodes node rest)
  have "kahn_measure (fold relax (forward_get forward node) (inDegree, rest))
          \<le> kahn_measure (inDegree, rest)"
    by (rule fold_relax_measure)
  also have "\<dots> < kahn_measure (inDegree, node # rest)" by (simp add: kahn_measure_def)
  finally show ?case using 2 by simp
qed

definition detectCycles :: "graph \<Rightarrow> string list option" where
  "detectCycles deps =
     (case build_tables deps ([], []) of
        (inDegree, forward) \<Rightarrow>
          (let queue = map fst (filter (\<lambda>(node, degree). degree = 0) inDegree);
               sortedNodes = kahn_loop forward (inDegree, queue, [])
           in if length sortedNodes < length deps
              then Some (filter (\<lambda>k. k \<notin> set sortedNodes) (map fst deps))
              else None))"

subsection \<open>Correctness of detectCycles\<close>

lemma forward_get_add:
  "forward_get (add_forward node dep fwd) d =
     (if d = dep then forward_get fwd dep @ [node] else forward_get fwd d)"
  by (simp add: forward_get_def add_forward_def update_conv')

lemma forward_get_fold_add:
  "distinct ds \<Longrightarrow>
   forward_get (fold (add_forward node) ds fwd) d =
     forward_get fwd d @ (if d \<in> set ds then [node] else [])"
proof (induction ds arbitrary: fwd)
  case Nil
  show ?case by simp
next
  case (Cons x ds)
  then show ?case by (auto simp: forward_get_add)
qed

lemma update_fresh: "k \<notin> set (map fst al) \<Longrightarrow> AList.update k v al = al @ [(k, v)]"
  by (induction al) auto

lemma build_tables_forward:
  "list_all (\<lambda>(n, ds). distinct ds) g \<Longrightarrow>
   forward_get (snd (build_tables g (inD, fwd))) d =
     forward_get fwd d @ map fst (filter (\<lambda>(n, ds). d \<in> set ds) g)"
proof (induction g arbitrary: inD fwd)
  case Nil
  show ?case by simp
next
  case (Cons e g)
  obtain n ds where e: "e = (n, ds)" by (cases e) auto
  from Cons.prems have "distinct ds" "list_all (\<lambda>(n, ds). distinct ds) g" by (auto simp: e)
  with Cons.IH show ?case by (simp add: e forward_get_fold_add)
qed

lemma build_tables_degrees:
  "distinct (map fst inD @ map fst g) \<Longrightarrow>
   fst (build_tables g (inD, fwd)) = inD @ map (\<lambda>(n, ds). (n, int (length ds))) g"
proof (induction g arbitrary: inD fwd)
  case Nil
  show ?case by simp
next
  case (Cons e g)
  obtain n ds where e: "e = (n, ds)" by (cases e) auto
  from Cons.prems have fresh: "n \<notin> set (map fst inD)"
    and d: "distinct (map fst (inD @ [(n, int (length ds))]) @ map fst g)"
    by (auto simp: e)
  from Cons.IH[of "inD @ [(n, int (length ds))]"] d show ?case
    by (simp add: e update_fresh[OF fresh])
qed

lemma fold_relax:
  assumes "distinct ds" "fold relax ds (inD, q) = (inD', q')"
  shows "q' = q @ filter (\<lambda>n. map_of inD n = Some 1) ds \<and>
         (\<forall>n. map_of inD' n =
            (if n \<in> set ds then map_option (\<lambda>d. d - 1) (map_of inD n) else map_of inD n))"
  using assms
proof (induction ds arbitrary: inD q)
  case Nil
  then show ?case by simp
next
  case (Cons x ds)
  obtain inD1 q1 where r: "relax x (inD, q) = (inD1, q1)" by (cases "relax x (inD, q)") auto
  have q1: "q1 = q @ filter (\<lambda>n. map_of inD n = Some 1) [x]"
    and m1: "map_of inD1 = (\<lambda>n. if n = x then map_option (\<lambda>d. d - 1) (map_of inD n) else map_of inD n)"
    using r by (auto simp: relax_def Let_def update_conv' fun_eq_iff split: option.splits)
  from Cons.prems have x: "x \<notin> set ds" "distinct ds" and f: "fold relax ds (inD1, q1) = (inD', q')"
    by (simp_all add: r)
  from Cons.IH[OF x(2) f] have q': "q' = q1 @ filter (\<lambda>n. map_of inD1 n = Some 1) ds"
    and m': "\<And>n. map_of inD' n =
            (if n \<in> set ds then map_option (\<lambda>d. d - 1) (map_of inD1 n) else map_of inD1 n)"
    by auto
  have "filter (\<lambda>n. map_of inD1 n = Some 1) ds = filter (\<lambda>n. map_of inD n = Some 1) ds"
    using x(1) by (intro filter_cong) (auto simp: m1)
  with q' q1 have "q' = q @ filter (\<lambda>n. map_of inD n = Some 1) (x # ds)" by simp
  moreover have "map_of inD' n =
      (if n \<in> set (x # ds) then map_option (\<lambda>d. d - 1) (map_of inD n) else map_of inD n)" for n
    using m'[of n] x(1) by (auto simp: m1)
  ultimately show ?case by blast
qed

declare kahn_loop.simps [simp del]

definition fwd_ok :: "graph \<Rightarrow> forward \<Rightarrow> bool" where
  "fwd_ok g fwd = (\<forall>d. distinct (forward_get fwd d) \<and>
      set (forward_get fwd d) = {n \<in> set (map fst g). d \<in> set (deps_list g n)})"

definition kahn_inv :: "graph \<Rightarrow> degrees \<times> string list \<times> string list \<Rightarrow> bool" where
  "kahn_inv g st = (case st of (inD, q, s) \<Rightarrow>
     distinct (s @ q) \<and>
     (\<forall>n. n \<in> set s \<union> set q \<longleftrightarrow> n \<in> set (map fst g) \<and> set (deps_list g n) \<subseteq> set s) \<and>
     (\<forall>n \<in> set (map fst g). map_of inD n = Some (int (card (set (deps_list g n) - set s)))) \<and>
     (\<forall>n \<in> set s. removable g n))"

lemma kahn_invD:
  assumes "kahn_inv g (inD, q, s)"
  shows "distinct (s @ q)"
    "\<And>n. n \<in> set s \<union> set q \<longleftrightarrow> n \<in> set (map fst g) \<and> set (deps_list g n) \<subseteq> set s"
    "\<And>n. n \<in> set (map fst g) \<Longrightarrow> map_of inD n = Some (int (card (set (deps_list g n) - set s)))"
    "\<And>n. n \<in> set s \<Longrightarrow> removable g n"
  using assms unfolding kahn_inv_def prod.case by blast+

lemma key_removable:
  assumes "n \<in> set (map fst g)" "\<And>d. d \<in> set (deps_list g n) \<Longrightarrow> removable g d"
  shows "removable g n"
proof -
  from assms(1) obtain ds where ds: "map_of g n = Some ds"
    by (metis map_of_eq_None_iff not_Some_eq set_map)
  with assms(2) show ?thesis by (auto simp: deps_list_Some intro: removableI)
qed

lemma kahn_inv_step:
  assumes inv: "kahn_inv g (inD, node # rest, s)" and fwd: "fwd_ok g fwd"
    and f: "fold relax (forward_get fwd node) (inD, rest) = (inD', q')"
  shows "kahn_inv g (inD', q', s @ [node])"
proof -
  let ?K = "set (map fst g)" and ?D = "\<lambda>n. set (deps_list g n)"
  let ?ds = "forward_get fwd node"
  note i = kahn_invD[OF inv]
  from fwd have dds: "distinct ?ds" and sds: "set ?ds = {n \<in> ?K. node \<in> ?D n}"
    by (auto simp: fwd_ok_def)
  from fold_relax[OF dds f] have q': "q' = rest @ filter (\<lambda>n. map_of inD n = Some 1) ?ds"
    and m': "\<And>n. map_of inD' n =
        (if n \<in> set ?ds then map_option (\<lambda>d. d - 1) (map_of inD n) else map_of inD n)"
    by auto
  from i(1) have node_new: "node \<notin> set s" "node \<notin> set rest" by auto
  from i(2)[of node] have node_ready: "node \<in> ?K" "?D node \<subseteq> set s" by auto
  have card1: "card (?D n - set s) = 1 \<longleftrightarrow> ?D n - set s = {node}" if "node \<in> ?D n" for n
  proof
    assume c: "card (?D n - set s) = 1"
    have mem: "node \<in> ?D n - set s" using that node_new(1) by simp
    from c obtain x where x: "?D n - set s = {x}" by (rule card_1_singletonE)
    from mem have "node = x" unfolding x by simp
    with x show "?D n - set s = {node}" by simp
  next
    assume "?D n - set s = {node}"
    then show "card (?D n - set s) = 1" by simp
  qed
  have new_iff: "n \<in> set (filter (\<lambda>n. map_of inD n = Some 1) ?ds) \<longleftrightarrow>
             n \<in> ?K \<and> node \<in> ?D n \<and> ?D n - set s = {node}" for n
  proof (cases "n \<in> ?K \<and> node \<in> ?D n")
    case True
    then have "map_of inD n = Some 1 \<longleftrightarrow> card (?D n - set s) = 1"
      using i(3)[of n] by simp
    with True card1[of n] sds show ?thesis by simp
  next
    case False
    with sds show ?thesis by auto
  qed
  then have new: "set (filter (\<lambda>n. map_of inD n = Some 1) ?ds) =
             {n \<in> ?K. node \<in> ?D n \<and> ?D n - set s = {node}}"
    by blast
  have fresh: "n \<notin> set s \<union> set (node # rest)" if "n \<in> set ?ds" for n
  proof -
    from that sds have "node \<in> ?D n" by simp
    with node_new(1) have "\<not> ?D n \<subseteq> set s" by blast
    with i(2)[of n] show ?thesis by blast
  qed
  have 1: "distinct ((s @ [node]) @ q')"
    using i(1) dds fresh unfolding q' by auto
  have 2: "n \<in> set (s @ [node]) \<union> set q' \<longleftrightarrow> n \<in> ?K \<and> ?D n \<subseteq> set (s @ [node])" for n
  proof
    assume "n \<in> set (s @ [node]) \<union> set q'"
    then consider "n \<in> set s \<union> set (node # rest)" | "n \<in> ?K" "?D n - set s = {node}"
      unfolding q' using new by auto
    then show "n \<in> ?K \<and> ?D n \<subseteq> set (s @ [node])"
    proof cases
      case 1
      with i(2)[of n] show ?thesis by auto
    next
      case 2
      then show ?thesis by auto
    qed
  next
    assume a: "n \<in> ?K \<and> ?D n \<subseteq> set (s @ [node])"
    show "n \<in> set (s @ [node]) \<union> set q'"
    proof (cases "?D n \<subseteq> set s")
      case True
      with a i(2)[of n] show ?thesis unfolding q' by auto
    next
      case False
      with a have "node \<in> ?D n" "?D n - set s = {node}" by auto
      with a new show ?thesis unfolding q' by auto
    qed
  qed
  have 3: "map_of inD' n = Some (int (card (?D n - set (s @ [node]))))" if n: "n \<in> ?K" for n
  proof (cases "node \<in> ?D n")
    case True
    with n sds have "n \<in> set ?ds" by simp
    with m'[of n] i(3)[OF n]
    have "map_of inD' n = Some (int (card (?D n - set s)) - 1)" by simp
    moreover have "?D n - set (s @ [node]) = (?D n - set s) - {node}" by auto
    moreover have mem: "node \<in> ?D n - set s" using True node_new(1) by simp
    then have "0 < card (?D n - set s)" by (auto simp: card_gt_0_iff)
    with mem have "int (card ((?D n - set s) - {node})) = int (card (?D n - set s)) - 1"
      by (subst card_Diff_singleton) (simp_all add: of_nat_diff Suc_leI)
    ultimately show ?thesis by simp
  next
    case False
    with n sds have "n \<notin> set ?ds" by simp
    moreover from False have "?D n - set (s @ [node]) = ?D n - set s" by auto
    ultimately show ?thesis using m'[of n] i(3)[OF n] by simp
  qed
  have 4: "removable g n" if "n \<in> set (s @ [node])" for n
  proof (cases "n = node")
    case True
    have "removable g node"
    proof (rule key_removable[OF node_ready(1)])
      fix d assume "d \<in> set (deps_list g node)"
      with node_ready(2) have "d \<in> set s" by blast
      then show "removable g d" by (rule i(4))
    qed
    with True show ?thesis by simp
  next
    case False
    with that i(4) show ?thesis by auto
  qed
  from 1 2 3 4 show ?thesis unfolding kahn_inv_def prod.case by blast
qed

lemma kahn_loop_correct:
  assumes "fwd_ok g fwd" "kahn_inv g st"
  shows "distinct (kahn_loop fwd st) \<and> set (kahn_loop fwd st) = {n. removable g n}"
  using assms
proof (induction fwd st rule: kahn_loop.induct)
  case (1 forward inDegree queue sortedNodes)
  show ?case
  proof (cases queue)
    case Nil
    note i = kahn_invD[OF "1.prems"(2)[unfolded Nil]]
    have "n \<in> set sortedNodes" if "removable g n" for n
      using that
    proof (induction rule: removable.induct)
      case (removableI n ds)
      then have "n \<in> set (map fst g)" "set (deps_list g n) \<subseteq> set sortedNodes"
        by (auto simp: deps_list_Some dest: map_of_SomeD intro: rev_image_eqI)
      with i(2)[of n] show ?case by simp
    qed
    moreover have "kahn_loop forward (inDegree, queue, sortedNodes) = sortedNodes"
      by (subst kahn_loop.simps) (simp add: Nil)
    ultimately show ?thesis using i(1,4) by auto
  next
    case (Cons node rest)
    obtain inD' q' where f: "fold relax (forward_get forward node) (inDegree, rest) = (inD', q')"
      by (cases "fold relax (forward_get forward node) (inDegree, rest)") auto
    from kahn_inv_step[OF "1.prems"(2)[unfolded Cons] "1.prems"(1) f]
    have "kahn_inv g (inD', q', sortedNodes @ [node])" .
    moreover have "kahn_loop forward (inDegree, queue, sortedNodes) =
        kahn_loop forward (inD', q', sortedNodes @ [node])"
      by (subst kahn_loop.simps) (simp add: Cons f)
    ultimately show ?thesis
      using "1.IH"[OF Cons f[symmetric] "1.prems"(1)] by simp
  qed
qed

lemma deps_list_entry:
  "distinct (map fst g) \<Longrightarrow> (n, ds) \<in> set g \<Longrightarrow> deps_list g n = ds"
  by (simp add: deps_list_def)

lemma build_tables_init:
  assumes "wf_graph g" "build_tables g ([], []) = (inD, fwd)"
  shows "fwd_ok g fwd"
    and "kahn_inv g (inD, map fst (filter (\<lambda>(node, degree). degree = 0) inD), [])"
proof -
  from assms(1) have dk: "distinct (map fst g)" and dd: "list_all (\<lambda>(n, ds). distinct ds) g"
    by (simp_all add: wf_graph_def)
  have fwd: "forward_get fwd d = map fst (filter (\<lambda>(n, ds). d \<in> set ds) g)" for d
    using build_tables_forward[OF dd, of "[]" "[]" d] assms(2) by (simp add: forward_get_def)
  have inD: "inD = map (\<lambda>(n, ds). (n, int (length ds))) g"
    using build_tables_degrees[of "[]" g "[]"] dk assms(2) by simp
  show "fwd_ok g fwd"
    unfolding fwd_ok_def
  proof (intro allI conjI)
    fix d
    show "distinct (forward_get fwd d)"
      unfolding fwd using dk by (rule distinct_map_filter)
    show "set (forward_get fwd d) = {n \<in> set (map fst g). d \<in> set (deps_list g n)}"
      unfolding fwd using deps_list_entry[OF dk] by force
  qed
  have q: "map fst (filter (\<lambda>(node, degree). degree = 0) inD) =
           map fst (filter (\<lambda>(n, ds). ds = []) g)"
    unfolding inD by (induction g) auto
  have deg: "map_of inD n = Some (int (card (set (deps_list g n) - set [])))"
    if "n \<in> set (map fst g)" for n
  proof -
    from that obtain ds where e: "(n, ds) \<in> set g" by auto
    with dk have m: "map_of g n = Some ds" by simp
    from e dd have "distinct ds" by (auto simp: list_all_iff)
    then have "card (set ds) = length ds" by (rule distinct_card)
    moreover have "map_of inD n = Some (int (length ds))"
      unfolding inD using m by (induction g) (auto split: if_splits)
    ultimately show ?thesis by (simp add: deps_list_Some[OF m])
  qed
  have mem: "n \<in> set [] \<union> set (map fst (filter (\<lambda>(n, ds). ds = []) g)) \<longleftrightarrow>
      n \<in> set (map fst g) \<and> set (deps_list g n) \<subseteq> set []" for n
    using deps_list_entry[OF dk] by force
  have "distinct ([] @ map fst (filter (\<lambda>(n, ds). ds = []) g))"
    using dk by (simp add: distinct_map_filter)
  with mem deg show "kahn_inv g (inD, map fst (filter (\<lambda>(node, degree). degree = 0) inD), [])"
    unfolding kahn_inv_def prod.case q by simp
qed

lemma detectCycles_removable:
  assumes "wf_graph g"
  shows "detectCycles g =
     (if \<forall>n \<in> set (map fst g). removable g n then None
      else Some (filter (\<lambda>k. \<not> removable g k) (map fst g)))"
proof -
  obtain inD fwd where t: "build_tables g ([], []) = (inD, fwd)"
    by (cases "build_tables g ([], [])") auto
  let ?s = "kahn_loop fwd (inD, map fst (filter (\<lambda>(node, degree). degree = 0) inD), [])"
  from kahn_loop_correct[OF build_tables_init[OF assms t]]
  have ds: "distinct ?s" and ss: "set ?s = {n. removable g n}" by auto
  from assms have dk: "distinct (map fst g)" by (simp add: wf_graph_def)
  have sub: "set ?s \<subseteq> set (map fst g)" using ss removable_key by auto
  have "length ?s = card (set ?s)" using ds by (simp add: distinct_card)
  moreover have "length g = card (set (map fst g))" using dk distinct_card[of "map fst g"] by simp
  ultimately have lt: "length ?s < length g \<longleftrightarrow> set ?s \<noteq> set (map fst g)"
    using sub by (metis List.finite_set card_seteq card_mono nat_less_le not_le_imp_less
        order.strict_iff_not)
  have all: "(\<forall>n \<in> set (map fst g). removable g n) \<longleftrightarrow> set ?s = set (map fst g)"
    using ss sub by auto
  have "detectCycles g =
      (if length ?s < length g then Some (filter (\<lambda>k. k \<notin> set ?s) (map fst g)) else None)"
    by (simp add: detectCycles_def t Let_def)
  also have "\<dots> = (if \<forall>n \<in> set (map fst g). removable g n then None
      else Some (filter (\<lambda>k. \<not> removable g k) (map fst g)))"
    using lt all ss by simp
  finally show ?thesis .
qed

text \<open>
  C2. On a \<open>Map\<close>-shaped graph \<open>detectCycles\<close> returns \<open>null\<close> exactly when the graph is
  acyclic (with every dependency name a key); a non-null result is non-empty and lists, in
  key order, exactly the keys that repeated deletion of nodes without undeleted
  dependencies (\<open>removable\<close>) never deletes; for two distinct agents that depend on each
  other it returns both.
\<close>

theorem detectCycles_kahn:
  assumes "wf_graph g"
  shows "(detectCycles g = None \<longleftrightarrow> closed_graph g \<and> acyclic_graph g) \<and>
         (\<forall>cyc. detectCycles g = Some cyc \<longrightarrow>
            cyc = filter (\<lambda>k. \<not> removable g k) (map fst g) \<and> cyc \<noteq> []) \<and>
         (\<forall>m n. m \<noteq> n \<longrightarrow> detectCycles [(m, [n]), (n, [m])] = Some [m, n])"
proof -
  from assms have dk: "distinct (map fst g)" by (simp add: wf_graph_def)
  note r = detectCycles_removable[OF assms]
  have 1: "detectCycles g = None \<longleftrightarrow> closed_graph g \<and> acyclic_graph g"
    using r all_removable_iff[OF dk] by (simp split: if_splits)
  have 2: "cyc = filter (\<lambda>k. \<not> removable g k) (map fst g) \<and> cyc \<noteq> []"
    if "detectCycles g = Some cyc" for cyc
  proof -
    from that r have ex: "\<not> (\<forall>n \<in> set (map fst g). removable g n)"
      and c: "cyc = filter (\<lambda>k. \<not> removable g k) (map fst g)"
      by (auto split: if_splits)
    from ex have "filter (\<lambda>k. \<not> removable g k) (map fst g) \<noteq> []"
      by (simp add: filter_empty_conv)
    with c show ?thesis by simp
  qed
  have 3: "detectCycles [(m, [n]), (n, [m])] = Some [m, n]" if "m \<noteq> n" for m n
  proof -
    have "kahn_loop [(n, [m]), (m, [n])] ([(m, 1), (n, 1)], [], []) = []"
      by (subst kahn_loop.simps) simp
    with that show ?thesis
      by (simp add: detectCycles_def add_forward_def forward_get_def)
  qed
  from 1 2 3 show ?thesis by blast
qed

theorem detectCycles_kahn_witness:
  "wf_graph [(''O'', []), (''P'', [''O'', ''Q'']), (''Q'', [''P'']), (''R'', [''Q''])] \<and>
   detectCycles [(''O'', []), (''P'', [''O'', ''Q'']), (''Q'', [''P'']), (''R'', [''Q''])]
     = Some [''P'', ''Q'', ''R''] \<and>
   [''P'', ''Q'', ''R''] = filter
     (\<lambda>k. \<not> removable [(''O'', []), (''P'', [''O'', ''Q'']), (''Q'', [''P'']), (''R'', [''Q''])] k)
     (map fst [(''O'', []), (''P'', [''O'', ''Q'']), (''Q'', [''P'']), (''R'', [''Q''])]) \<and>
   \<not> (closed_graph [(''O'', []), (''P'', [''O'', ''Q'']), (''Q'', [''P'']), (''R'', [''Q''])] \<and>
      acyclic_graph [(''O'', []), (''P'', [''O'', ''Q'']), (''Q'', [''P'']), (''R'', [''Q''])]) \<and>
   ''M'' \<noteq> ''N'' \<and> detectCycles [(''M'', [''N'']), (''N'', [''M''])] = Some [''M'', ''N'']"
proof -
  let ?g = "[(''O'', []), (''P'', [''O'', ''Q'']), (''Q'', [''P'']), (''R'', [''Q''])] :: graph"
  have h1: "wf_graph ?g" by (simp add: wf_graph_def)
  have h2: "detectCycles ?g = Some [''P'', ''Q'', ''R'']" by code_simp
  have h3: "''M'' \<noteq> ''N''" by simp
  from detectCycles_kahn[OF h1] h1 h2 h3 show ?thesis by (metis option.distinct(1))
qed

subsection \<open>buildDependencyGraph (swarm/dag.ts)\<close>

text \<open>
  Modelled from the spec: the types \<open>SwarmAgent\<close> and \<open>SwarmDefinition\<close> of
  \<open>swarm/schema.ts\<close>, which is not among the sources. An agent definition has a name, a
  role, a task, an optional extra context, and the lists \<open>waitsFor\<close> and \<open>reportsTo\<close>; a
  definition has the run mode, the \<open>Map\<close> of agents by name and \<open>agentOrder\<close>, the agent
  names in declaration order. \<open>valid_def\<close> is the invariant of that type: the keys of the
  \<open>Map\<close> are distinct and \<open>agentOrder\<close> lists each of them once.
\<close>

record SwarmAgent =
  agent_name :: string
  role :: string
  task :: string
  extraContext :: "string option"
  waitsFor :: "string list"
  reportsTo :: "string list"

record SwarmDefinition =
  mode :: string
  agents :: "(string \<times> SwarmAgent) list"
  agentOrder :: "string list"

definition valid_def :: "SwarmDefinition \<Rightarrow> bool" where
  "valid_def d = (distinct (map fst (agents d)) \<and> distinct (agentOrder d) \<and>
                  set (agentOrder d) = set (map fst (agents d)))"

text \<open>
  \<open>deps.get(k)!.add(v)\<close>: the set stored under \<open>k\<close> is extended in place; on a missing key
  \<open>deps.get(k)\<close> is \<open>undefined\<close> and the call throws a TypeError.
\<close>

definition graph_add :: "string \<Rightarrow> string \<Rightarrow> graph \<Rightarrow> error + graph" where
  "graph_add k v deps =
     (case map_of deps k of
        None \<Rightarrow> Inl TypeError
      | Some s \<Rightarrow> Inr (AList.update k (set_add v s) deps))"

text \<open>
  The two nested loops over \<open>agent.waitsFor\<close> and over \<open>agent.reportsTo\<close>, guarded by
  \<open>deps.has\<close>; then \<open>hasExplicitDeps\<close> and the loop
  \<open>for (let i = 1; i < agentOrder.length; i++) deps.get(agentOrder[i])!.add(agentOrder[i - 1])\<close>.
\<close>

fun add_waits :: "string \<Rightarrow> string list \<Rightarrow> graph \<Rightarrow> error + graph" where
  "add_waits nm [] deps = Inr deps"
| "add_waits nm (dep # rest) deps =
     (if map_has deps dep
      then (case graph_add nm dep deps of
              Inl e \<Rightarrow> Inl e
            | Inr deps' \<Rightarrow> add_waits nm rest deps')
      else add_waits nm rest deps)"

fun explicit_waits :: "(string \<times> SwarmAgent) list \<Rightarrow> graph \<Rightarrow> error + graph" where
  "explicit_waits [] deps = Inr deps"
| "explicit_waits ((nm, agent) # rest) deps =
     (case add_waits nm (waitsFor agent) deps of
        Inl e \<Rightarrow> Inl e
      | Inr deps' \<Rightarrow> explicit_waits rest deps')"

fun add_reports :: "string \<Rightarrow> string list \<Rightarrow> graph \<Rightarrow> error + graph" where
  "add_reports nm [] deps = Inr deps"
| "add_reports nm (target # rest) deps =
     (if map_has deps target
      then (case graph_add target nm deps of
              Inl e \<Rightarrow> Inl e
            | Inr deps' \<Rightarrow> add_reports nm rest deps')
      else add_reports nm rest deps)"

fun inverse_reports :: "(string \<times> SwarmAgent) list \<Rightarrow> graph \<Rightarrow> error + graph" where
  "inverse_reports [] deps = Inr deps"
| "inverse_reports ((nm, agent) # rest) deps =
     (case add_reports nm (reportsTo agent) deps of
        Inl e \<Rightarrow> Inl e
      | Inr deps' \<Rightarrow> inverse_reports rest deps')"

definition hasExplicitDeps :: "graph \<Rightarrow> bool" where
  "hasExplicitDeps deps = list_ex (\<lambda>(k, s). length s > 0) deps"

fun chain :: "string list \<Rightarrow> graph \<Rightarrow> error + graph" where
  "chain (prev # cur # rest) deps =
     (case graph_add cur prev deps of
        Inl e \<Rightarrow> Inl e
      | Inr deps' \<Rightarrow> chain (cur # rest) deps')"
| "chain order deps = Inr deps"

definition buildDependencyGraph :: "SwarmDefinition \<Rightarrow> error + graph" where
  "buildDependencyGraph d =
     (let deps0 = fold (\<lambda>nm deps. AList.update nm [] deps) (map fst (agents d)) [] in
      case explicit_waits (agents d) deps0 of
        Inl e \<Rightarrow> Inl e
      | Inr deps1 \<Rightarrow>
          (case inverse_reports (agents d) deps1 of
             Inl e \<Rightarrow> Inl e
           | Inr deps2 \<Rightarrow>
               if (mode d = ''pipeline'' \<or> mode d = ''sequential'') \<and> \<not> hasExplicitDeps deps2
               then chain (agentOrder d) deps2
               else Inr deps2))"


subsection \<open>The edges of the built graph\<close>

text \<open>
  The edges the specification names: an agent's known \<open>waitsFor\<close> names, the inverse of its
  known \<open>reportsTo\<close> names, and the chain of consecutive names of the declaration order.
\<close>

definition explicit_edges :: "SwarmDefinition \<Rightarrow> (string \<times> string) set" where
  "explicit_edges d =
     set (concat (map (\<lambda>(a, ag). map (Pair a) (filter (map_has (agents d)) (waitsFor ag)))
                      (agents d)))"

definition inverse_edges :: "SwarmDefinition \<Rightarrow> (string \<times> string) set" where
  "inverse_edges d =
     set (concat (map (\<lambda>(a, ag). map (\<lambda>t. (t, a)) (filter (map_has (agents d)) (reportsTo ag)))
                      (agents d)))"

definition chain_edges :: "string list \<Rightarrow> (string \<times> string) set" where
  "chain_edges order = set (zip (tl order) order)"

definition sets_distinct :: "graph \<Rightarrow> bool" where
  "sets_distinct g = list_all (\<lambda>(n, ds). distinct ds) g"

lemma update_keys_same: "k \<in> set (map fst al) \<Longrightarrow> map fst (AList.update k v al) = map fst al"
  by (simp add: update_keys)

lemma sets_distinct_update:
  "sets_distinct g \<Longrightarrow> distinct s \<Longrightarrow> sets_distinct (AList.update k s g)"
  unfolding sets_distinct_def by (induction g) auto

lemma sets_distinct_lookup: "sets_distinct g \<Longrightarrow> map_of g k = Some s \<Longrightarrow> distinct s"
  unfolding sets_distinct_def list_all_iff by (auto dest!: map_of_SomeD)

lemma distinct_set_add: "distinct s \<Longrightarrow> distinct (set_add v s)"
  by (simp add: set_add_def)

lemma set_set_add: "set (set_add v s) = insert v (set s)"
  by (auto simp: set_add_def)

lemma graph_add_Inr:
  assumes "graph_add k v deps = Inr deps'"
  shows "k \<in> set (map fst deps)" "map fst deps' = map fst deps"
    "dep_edges deps' = insert (k, v) (dep_edges deps)"
    "sets_distinct deps \<Longrightarrow> sets_distinct deps'"
proof -
  from assms obtain s where s: "map_of deps k = Some s"
    and d': "deps' = AList.update k (set_add v s) deps"
    by (auto simp: graph_add_def split: option.splits)
  from s show k: "k \<in> set (map fst deps)" by (auto dest: map_of_SomeD intro: rev_image_eqI)
  then show "map fst deps' = map fst deps" unfolding d' by (rule update_keys_same)
  show "dep_edges deps' = insert (k, v) (dep_edges deps)"
  proof (rule set_eqI, clarify)
    fix a b
    show "(a, b) \<in> dep_edges deps' \<longleftrightarrow> (a, b) \<in> insert (k, v) (dep_edges deps)"
      using s by (auto simp: dep_edges_iff d' update_conv' set_set_add)
  qed
  show "sets_distinct deps'" if "sets_distinct deps"
    unfolding d' using that sets_distinct_lookup[OF that s]
    by (intro sets_distinct_update distinct_set_add)
qed

lemma graph_add_ok: "k \<in> set (map fst deps) \<Longrightarrow> \<exists>deps'. graph_add k v deps = Inr deps'"
proof -
  assume "k \<in> set (map fst deps)"
  then obtain s where "map_of deps k = Some s"
    by (metis map_of_eq_None_iff not_Some_eq set_map)
  then show ?thesis by (simp add: graph_add_def)
qed

lemma add_waits_Inr:
  "add_waits nm ws deps = Inr deps' \<Longrightarrow>
   map fst deps' = map fst deps \<and>
   dep_edges deps' = dep_edges deps \<union> {(nm, w) | w. w \<in> set ws \<and> w \<in> set (map fst deps)} \<and>
   (sets_distinct deps \<longrightarrow> sets_distinct deps')"
proof (induction ws arbitrary: deps)
  case Nil
  then show ?case by simp
next
  case (Cons w ws)
  show ?case
  proof (cases "map_has deps w")
    case False
    with Cons.prems have "add_waits nm ws deps = Inr deps'" by simp
    from Cons.IH[OF this] False show ?thesis by (auto simp: map_has_def)
  next
    case True
    with Cons.prems obtain deps1 where a: "graph_add nm w deps = Inr deps1"
      and r: "add_waits nm ws deps1 = Inr deps'"
      by (auto split: sum.splits)
    note g = graph_add_Inr[OF a]
    from Cons.IH[OF r] g True show ?thesis by (auto simp: map_has_def)
  qed
qed

lemma add_waits_ok:
  "nm \<in> set (map fst deps) \<Longrightarrow> \<exists>deps'. add_waits nm ws deps = Inr deps'"
proof (induction ws arbitrary: deps)
  case Nil
  show ?case by simp
next
  case (Cons w ws)
  from graph_add_ok[OF Cons.prems] obtain deps1 where a: "graph_add nm w deps = Inr deps1"
    by blast
  from graph_add_Inr(2)[OF a] Cons.prems have "nm \<in> set (map fst deps1)" by simp
  from Cons.IH[OF this] Cons.IH[OF Cons.prems] a show ?case by simp
qed

lemma add_reports_Inr:
  "add_reports nm ts deps = Inr deps' \<Longrightarrow>
   map fst deps' = map fst deps \<and>
   dep_edges deps' = dep_edges deps \<union> {(t, nm) | t. t \<in> set ts \<and> t \<in> set (map fst deps)} \<and>
   (sets_distinct deps \<longrightarrow> sets_distinct deps')"
proof (induction ts arbitrary: deps)
  case Nil
  then show ?case by simp
next
  case (Cons t ts)
  show ?case
  proof (cases "map_has deps t")
    case False
    with Cons.prems have "add_reports nm ts deps = Inr deps'" by simp
    from Cons.IH[OF this] False show ?thesis by (auto simp: map_has_def)
  next
    case True
    with Cons.prems obtain deps1 where a: "graph_add t nm deps = Inr deps1"
      and r: "add_reports nm ts deps1 = Inr deps'"
      by (auto split: sum.splits)
    note g = graph_add_Inr[OF a]
    from Cons.IH[OF r] g True show ?thesis by (auto simp: map_has_def)
  qed
qed

lemma add_reports_ok: "\<exists>deps'. add_reports nm ts deps = Inr deps'"
proof (induction ts arbitrary: deps)
  case Nil
  show ?case by simp
next
  case (Cons t ts)
  show ?case
  proof (cases "map_has deps t")
    case False
    with Cons.IH[of deps] show ?thesis by simp
  next
    case True
    then have "t \<in> set (map fst deps)" by (simp add: map_has_def)
    from graph_add_ok[OF this] obtain deps1 where "graph_add t nm deps = Inr deps1" by blast
    with Cons.IH[of deps1] True show ?thesis by simp
  qed
qed

lemma explicit_waits_Inr:
  "explicit_waits al deps = Inr deps' \<Longrightarrow>
   map fst deps' = map fst deps \<and>
   dep_edges deps' = dep_edges deps \<union>
     {(a, w). \<exists>ag. (a, ag) \<in> set al \<and> w \<in> set (waitsFor ag) \<and> w \<in> set (map fst deps)} \<and>
   (sets_distinct deps \<longrightarrow> sets_distinct deps')"
proof (induction al arbitrary: deps)
  case Nil
  then show ?case by simp
next
  case (Cons e al)
  obtain nm ag where e: "e = (nm, ag)" by (cases e) auto
  from Cons.prems obtain deps1 where a: "add_waits nm (waitsFor ag) deps = Inr deps1"
    and r: "explicit_waits al deps1 = Inr deps'"
    by (auto simp: e split: sum.splits)
  from add_waits_Inr[OF a] Cons.IH[OF r] show ?case by (auto simp: e)
qed

lemma explicit_waits_ok:
  "fst ` set al \<subseteq> set (map fst deps) \<Longrightarrow> \<exists>deps'. explicit_waits al deps = Inr deps'"
proof (induction al arbitrary: deps)
  case Nil
  show ?case by simp
next
  case (Cons e al)
  obtain nm ag where e: "e = (nm, ag)" by (cases e) auto
  from Cons.prems have "nm \<in> set (map fst deps)" by (simp add: e)
  from add_waits_ok[OF this] obtain deps1
    where a: "add_waits nm (waitsFor ag) deps = Inr deps1" by blast
  from add_waits_Inr[OF a] Cons.prems have "fst ` set al \<subseteq> set (map fst deps1)" by simp
  from Cons.IH[OF this] a show ?case by (simp add: e)
qed

lemma inverse_reports_Inr:
  "inverse_reports al deps = Inr deps' \<Longrightarrow>
   map fst deps' = map fst deps \<and>
   dep_edges deps' = dep_edges deps \<union>
     {(t, a). \<exists>ag. (a, ag) \<in> set al \<and> t \<in> set (reportsTo ag) \<and> t \<in> set (map fst deps)} \<and>
   (sets_distinct deps \<longrightarrow> sets_distinct deps')"
proof (induction al arbitrary: deps)
  case Nil
  then show ?case by simp
next
  case (Cons e al)
  obtain nm ag where e: "e = (nm, ag)" by (cases e) auto
  from Cons.prems obtain deps1 where a: "add_reports nm (reportsTo ag) deps = Inr deps1"
    and r: "inverse_reports al deps1 = Inr deps'"
    by (auto simp: e split: sum.splits)
  from add_reports_Inr[OF a] Cons.IH[OF r] show ?case by (auto simp: e)
qed

lemma inverse_reports_ok: "\<exists>deps'. inverse_reports al deps = Inr deps'"
proof (induction al arbitrary: deps)
  case Nil
  show ?case by simp
next
  case (Cons e al)
  obtain nm ag where e: "e = (nm, ag)" by (cases e) auto
  from add_reports_ok obtain deps1
    where a: "add_reports nm (reportsTo ag) deps = Inr deps1" by blast
  from Cons.IH[of deps1] a show ?case by (simp add: e)
qed

lemma chain_Inr:
  "chain order deps = Inr deps' \<Longrightarrow>
   map fst deps' = map fst deps \<and>
   dep_edges deps' = dep_edges deps \<union> chain_edges order \<and>
   (sets_distinct deps \<longrightarrow> sets_distinct deps')"
proof (induction order deps rule: chain.induct)
  case (1 prev cur rest deps)
  from "1.prems" obtain deps1 where a: "graph_add cur prev deps = Inr deps1"
    and r: "chain (cur # rest) deps1 = Inr deps'"
    by (auto split: sum.splits)
  from graph_add_Inr[OF a] "1.IH"[OF a r] show ?case by (auto simp: chain_edges_def)
qed (simp_all add: chain_edges_def)

lemma chain_ok:
  "set (tl order) \<subseteq> set (map fst deps) \<Longrightarrow> \<exists>deps'. chain order deps = Inr deps'"
proof (induction order deps rule: chain.induct)
  case (1 prev cur rest deps)
  then have "cur \<in> set (map fst deps)" by simp
  from graph_add_ok[OF this] obtain deps1 where a: "graph_add cur prev deps = Inr deps1" by blast
  from graph_add_Inr(2)[OF a] "1.prems" have "set (tl (cur # rest)) \<subseteq> set (map fst deps1)"
    by simp
  from "1.IH"[OF a this] a show ?case by simp
qed simp_all

lemma fold_init:
  "distinct (map fst acc @ ks) \<Longrightarrow>
   fold (\<lambda>nm deps. AList.update nm [] deps) ks acc = acc @ map (\<lambda>k. (k, [])) ks"
proof (induction ks arbitrary: acc)
  case Nil
  show ?case by simp
next
  case (Cons k ks)
  from Cons.prems have f: "k \<notin> set (map fst acc)" and d: "distinct (map fst (acc @ [(k, [])]) @ ks)"
    by auto
  from Cons.IH[OF d] show ?case by (simp add: update_fresh[OF f])
qed

lemma hasExplicitDeps_iff:
  assumes "distinct (map fst deps)"
  shows "hasExplicitDeps deps \<longleftrightarrow> dep_edges deps \<noteq> {}"
proof
  assume "hasExplicitDeps deps"
  then obtain k s where ks: "(k, s) \<in> set deps" "s \<noteq> []"
    by (auto simp: hasExplicitDeps_def list_ex_iff)
  then obtain x where "x \<in> set s" by (cases s) auto
  moreover from ks assms have "map_of deps k = Some s" by simp
  ultimately have "(k, x) \<in> dep_edges deps" by (auto simp: dep_edges_iff)
  then show "dep_edges deps \<noteq> {}" by blast
next
  assume "dep_edges deps \<noteq> {}"
  then obtain k x where "(k, x) \<in> dep_edges deps" by auto
  then obtain s where "map_of deps k = Some s" "x \<in> set s" by (auto simp: dep_edges_iff)
  then have "(k, s) \<in> set deps" "s \<noteq> []" by (auto dest: map_of_SomeD)
  then show "hasExplicitDeps deps" by (auto simp: hasExplicitDeps_def list_ex_iff)
qed

lemma explicit_edges_iff:
  "(a, w) \<in> explicit_edges d \<longleftrightarrow>
     (\<exists>ag. (a, ag) \<in> set (agents d) \<and> w \<in> set (waitsFor ag) \<and> w \<in> set (map fst (agents d)))"
proof
  assume "(a, w) \<in> explicit_edges d"
  then show "\<exists>ag. (a, ag) \<in> set (agents d) \<and> w \<in> set (waitsFor ag) \<and>
      w \<in> set (map fst (agents d))"
    by (auto simp: explicit_edges_def map_has_def)
next
  assume "\<exists>ag. (a, ag) \<in> set (agents d) \<and> w \<in> set (waitsFor ag) \<and>
      w \<in> set (map fst (agents d))"
  then obtain ag where "(a, ag) \<in> set (agents d)" "w \<in> set (waitsFor ag)"
    "w \<in> set (map fst (agents d))" by blast
  then show "(a, w) \<in> explicit_edges d"
    unfolding explicit_edges_def map_has_def by (auto intro!: bexI[of _ "(a, ag)"])
qed

lemma inverse_edges_iff:
  "(t, a) \<in> inverse_edges d \<longleftrightarrow>
     (\<exists>ag. (a, ag) \<in> set (agents d) \<and> t \<in> set (reportsTo ag) \<and> t \<in> set (map fst (agents d)))"
proof
  assume "(t, a) \<in> inverse_edges d"
  then show "\<exists>ag. (a, ag) \<in> set (agents d) \<and> t \<in> set (reportsTo ag) \<and>
      t \<in> set (map fst (agents d))"
    by (auto simp: inverse_edges_def map_has_def)
next
  assume "\<exists>ag. (a, ag) \<in> set (agents d) \<and> t \<in> set (reportsTo ag) \<and>
      t \<in> set (map fst (agents d))"
  then obtain ag where "(a, ag) \<in> set (agents d)" "t \<in> set (reportsTo ag)"
    "t \<in> set (map fst (agents d))" by blast
  then show "(t, a) \<in> inverse_edges d"
    unfolding inverse_edges_def map_has_def by (auto intro!: bexI[of _ "(a, ag)"])
qed

lemma dep_edges_init: "dep_edges (map (\<lambda>k. (k, [])) ks) = {}"
proof -
  have "map_of (map (\<lambda>k. (k, [])) ks) n = Some ds \<Longrightarrow> ds = []" for n and ds :: "string list"
    by (induction ks) (auto split: if_splits)
  then have "(n, x) \<notin> dep_edges (map (\<lambda>k. (k, [])) ks)" for n x
    unfolding dep_edges_iff by fastforce
  then show ?thesis by auto
qed

definition chain_gate :: "SwarmDefinition \<Rightarrow> bool" where
  "chain_gate d = ((mode d = ''pipeline'' \<or> mode d = ''sequential'') \<and>
                   explicit_edges d \<union> inverse_edges d = {})"

lemma buildDependencyGraph_edges:
  assumes "distinct (map fst (agents d))"
  shows "\<exists>deps2. map fst deps2 = map fst (agents d) \<and> sets_distinct deps2 \<and>
          dep_edges deps2 = explicit_edges d \<union> inverse_edges d \<and>
          buildDependencyGraph d =
            (if chain_gate d then chain (agentOrder d) deps2 else Inr deps2)"
proof -
  define ks where "ks = map fst (agents d)"
  define d0 :: graph where "d0 = map (\<lambda>k. (k, [])) ks"
  have k0: "map fst d0 = ks" by (simp add: d0_def comp_def)
  have init: "fold (\<lambda>nm deps. AList.update nm [] deps) (map fst (agents d)) [] = d0"
    using fold_init[of "[]" ks] assms by (simp add: ks_def d0_def)
  have sd0: "sets_distinct d0" by (simp add: sets_distinct_def list_all_iff d0_def)
  have e0: "dep_edges d0 = {}" unfolding d0_def by (rule dep_edges_init)
  have "fst ` set (agents d) \<subseteq> set (map fst d0)" by (simp add: k0 ks_def)
  from explicit_waits_ok[OF this] obtain deps1
    where w: "explicit_waits (agents d) d0 = Inr deps1" by blast
  from inverse_reports_ok obtain deps2
    where r: "inverse_reports (agents d) deps1 = Inr deps2" by blast
  note W = explicit_waits_Inr[OF w] and R = inverse_reports_Inr[OF r]
  from W k0 have k1: "map fst deps1 = ks" by simp
  from R k1 have k2: "map fst deps2 = ks" by simp
  from W R sd0 have sd: "sets_distinct deps2" by blast
  have e1: "dep_edges deps1 = explicit_edges d"
  proof (rule set_eqI, clarify)
    fix a b
    from W have "(a, b) \<in> dep_edges deps1 \<longleftrightarrow>
      (\<exists>ag. (a, ag) \<in> set (agents d) \<and> b \<in> set (waitsFor ag) \<and> b \<in> set (map fst d0))"
      unfolding e0 by blast
    then show "(a, b) \<in> dep_edges deps1 \<longleftrightarrow> (a, b) \<in> explicit_edges d"
      unfolding explicit_edges_iff k0 ks_def .
  qed
  have e2: "dep_edges deps2 = explicit_edges d \<union> inverse_edges d"
  proof (rule set_eqI, clarify)
    fix a b
    from R have "(a, b) \<in> dep_edges deps2 \<longleftrightarrow> (a, b) \<in> dep_edges deps1 \<or>
      (\<exists>ag. (b, ag) \<in> set (agents d) \<and> a \<in> set (reportsTo ag) \<and> a \<in> set (map fst deps1))"
      by blast
    then show "(a, b) \<in> dep_edges deps2 \<longleftrightarrow> (a, b) \<in> explicit_edges d \<union> inverse_edges d"
      unfolding e1 k1 ks_def using inverse_edges_iff[of a b d] by blast
  qed
  have "distinct (map fst deps2)" using assms k2 by (simp add: ks_def)
  from hasExplicitDeps_iff[OF this]
  have h: "hasExplicitDeps deps2 \<longleftrightarrow> explicit_edges d \<union> inverse_edges d \<noteq> {}"
    unfolding e2 .
  have "buildDependencyGraph d =
            (if chain_gate d then chain (agentOrder d) deps2 else Inr deps2)"
    unfolding buildDependencyGraph_def init Let_def w sum.case r chain_gate_def h by simp
  with k2 sd e2 show ?thesis unfolding ks_def by blast
qed

lemma buildDependencyGraph_Inr:
  assumes "distinct (map fst (agents d))" "buildDependencyGraph d = Inr g"
  shows "map fst g = map fst (agents d)" "wf_graph g"
    "dep_edges g =
       (if chain_gate d then chain_edges (agentOrder d) else explicit_edges d \<union> inverse_edges d)"
proof -
  from buildDependencyGraph_edges[OF assms(1)] obtain deps2
    where k: "map fst deps2 = map fst (agents d)" and sd: "sets_distinct deps2"
      and e: "dep_edges deps2 = explicit_edges d \<union> inverse_edges d"
      and b: "buildDependencyGraph d =
            (if chain_gate d then chain (agentOrder d) deps2 else Inr deps2)"
    by blast
  have "map fst g = map fst (agents d) \<and> sets_distinct g \<and> dep_edges g =
       (if chain_gate d then chain_edges (agentOrder d) else explicit_edges d \<union> inverse_edges d)"
  proof (cases "chain_gate d")
    case True
    with b assms(2) have "chain (agentOrder d) deps2 = Inr g" by simp
    from chain_Inr[OF this] k sd e True show ?thesis by (simp add: chain_gate_def)
  next
    case False
    with b assms(2) have "g = deps2" by simp
    with k sd e False show ?thesis by simp
  qed
  then show "map fst g = map fst (agents d)" "wf_graph g"
    "dep_edges g =
       (if chain_gate d then chain_edges (agentOrder d) else explicit_edges d \<union> inverse_edges d)"
    using assms(1) by (simp_all add: wf_graph_def sets_distinct_def)
qed

lemma buildDependencyGraph_ok:
  assumes "distinct (map fst (agents d))" "set (tl (agentOrder d)) \<subseteq> set (map fst (agents d))"
  shows "\<exists>g. buildDependencyGraph d = Inr g"
proof -
  from buildDependencyGraph_edges[OF assms(1)] obtain deps2
    where k: "map fst deps2 = map fst (agents d)"
      and b: "buildDependencyGraph d =
            (if chain_gate d then chain (agentOrder d) deps2 else Inr deps2)"
    by blast
  from chain_ok[of "agentOrder d" deps2] assms(2) k
  obtain g where "chain (agentOrder d) deps2 = Inr g" by auto
  with b show ?thesis by auto
qed

lemma chain_edges_known:
  "(a, b) \<in> chain_edges order \<Longrightarrow> a \<in> set order \<and> b \<in> set order"
  unfolding chain_edges_def by (cases order) (auto dest: set_zip_leftD set_zip_rightD)

lemma chain_edges_irrefl: "distinct order \<Longrightarrow> (a, a) \<notin> chain_edges order"
  unfolding chain_edges_def
proof (induction order)
  case Nil
  show ?case by simp
next
  case (Cons x xs)
  then show ?case by (cases xs) (auto dest: set_zip_rightD)
qed

lemma chain_edges_nth:
  "chain_edges order = {(order ! i, order ! (i - 1)) | i. 0 < i \<and> i < length order}"
proof (rule set_eqI, clarify)
  fix a b
  have "(a, b) \<in> chain_edges order \<longleftrightarrow>
        (\<exists>j. a = tl order ! j \<and> b = order ! j \<and> j < length (tl order))"
    unfolding chain_edges_def set_zip by auto
  also have "\<dots> \<longleftrightarrow> (\<exists>j. a = order ! Suc j \<and> b = order ! j \<and> Suc j < length order)"
  proof -
    have "a = tl order ! j \<and> b = order ! j \<and> j < length (tl order) \<longleftrightarrow>
          a = order ! Suc j \<and> b = order ! j \<and> Suc j < length order" for j
      by (cases order) auto
    then show ?thesis by simp
  qed
  also have "\<dots> \<longleftrightarrow> (\<exists>i. a = order ! i \<and> b = order ! (i - 1) \<and> 0 < i \<and> i < length order)"
  proof
    assume "\<exists>j. a = order ! Suc j \<and> b = order ! j \<and> Suc j < length order"
    then obtain j where "a = order ! Suc j" "b = order ! j" "Suc j < length order" by blast
    then show "\<exists>i. a = order ! i \<and> b = order ! (i - 1) \<and> 0 < i \<and> i < length order"
      by (intro exI[of _ "Suc j"]) simp
  next
    assume "\<exists>i. a = order ! i \<and> b = order ! (i - 1) \<and> 0 < i \<and> i < length order"
    then obtain i where i: "a = order ! i" "b = order ! (i - 1)" "0 < i" "i < length order"
      by blast
    then obtain j where "i = Suc j" by (cases i) auto
    with i show "\<exists>j. a = order ! Suc j \<and> b = order ! j \<and> Suc j < length order"
      by (intro exI[of _ j]) simp
  qed
  finally show "(a, b) \<in> chain_edges order \<longleftrightarrow>
     (a, b) \<in> {(order ! i, order ! (i - 1)) | i. 0 < i \<and> i < length order}"
    by blast
qed

lemma valid_def_ok:
  assumes "valid_def d"
  obtains g where "buildDependencyGraph d = Inr g" "map fst g = map fst (agents d)"
    "wf_graph g"
    "dep_edges g =
       (if chain_gate d then chain_edges (agentOrder d) else explicit_edges d \<union> inverse_edges d)"
proof -
  from assms have dk: "distinct (map fst (agents d))"
    and eq: "set (agentOrder d) = set (map fst (agents d))"
    unfolding valid_def_def by blast+
  have "set (tl (agentOrder d)) \<subseteq> set (agentOrder d)" by (cases "agentOrder d") auto
  with eq have sub: "set (tl (agentOrder d)) \<subseteq> set (map fst (agents d))" by simp
  from buildDependencyGraph_ok[OF dk sub] obtain g where g: "buildDependencyGraph d = Inr g"
    by blast
  from that[OF g buildDependencyGraph_Inr[OF dk g]] show ?thesis .
qed

text \<open>
  C4. The dependency graph of a definition is built without error, and its edges are the
  chain "agent \<open>i\<close> depends on agent \<open>i - 1\<close>" of the declaration order exactly when the mode
  is \<open>pipeline\<close> or \<open>sequential\<close> and there is no explicit and no inverse edge; in every other
  case the edges are the explicit and inverse edges and nothing else.
\<close>

theorem buildDependencyGraph_chain:
  assumes "valid_def d"
  shows "\<exists>g. buildDependencyGraph d = Inr g \<and>
           dep_edges g =
             (if (mode d = ''pipeline'' \<or> mode d = ''sequential'') \<and>
                 explicit_edges d \<union> inverse_edges d = {}
              then {(agentOrder d ! i, agentOrder d ! (i - 1)) | i.
                      0 < i \<and> i < length (agentOrder d)}
              else explicit_edges d \<union> inverse_edges d)"
proof -
  from assms obtain g where "buildDependencyGraph d = Inr g"
    "dep_edges g =
       (if chain_gate d then chain_edges (agentOrder d) else explicit_edges d \<union> inverse_edges d)"
    by (rule valid_def_ok)
  then show ?thesis unfolding chain_gate_def chain_edges_nth by blast
qed

definition swarm_agent :: "string \<Rightarrow> string list \<Rightarrow> string list \<Rightarrow> string \<times> SwarmAgent" where
  "swarm_agent nm ws rs = (nm, \<lparr>agent_name = nm, role = ''worker'', task = ''work'',
      extraContext = None, waitsFor = ws, reportsTo = rs\<rparr>)"

definition seq_example :: SwarmDefinition where
  "seq_example = \<lparr>mode = ''sequential'',
     agents = [swarm_agent ''P'' [] [], swarm_agent ''Q'' [] [], swarm_agent ''R'' [] []],
     agentOrder = [''P'', ''Q'', ''R'']\<rparr>"

theorem buildDependencyGraph_chain_witness:
  "valid_def seq_example \<and>
   buildDependencyGraph seq_example = Inr [(''P'', []), (''Q'', [''P'']), (''R'', [''Q''])] \<and>
   dep_edges [(''P'', []), (''Q'', [''P'']), (''R'', [''Q''])] =
     {(agentOrder seq_example ! i, agentOrder seq_example ! (i - 1)) | i.
        0 < i \<and> i < length (agentOrder seq_example)} \<and>
   buildExecutionWaves [(''P'', []), (''Q'', [''P'']), (''R'', [''Q''])]
     = Inr [[''P''], [''Q''], [''R'']]"
proof -
  have h: "valid_def seq_example"
    by (simp add: valid_def_def seq_example_def swarm_agent_def)
  have b: "buildDependencyGraph seq_example = Inr [(''P'', []), (''Q'', [''P'']), (''R'', [''Q''])]"
    by code_simp
  have e: "explicit_edges seq_example \<union> inverse_edges seq_example = {}"
    by (simp add: explicit_edges_def inverse_edges_def seq_example_def swarm_agent_def)
  have m: "mode seq_example = ''sequential''" by (simp add: seq_example_def)
  have w: "buildExecutionWaves [(''P'', []), (''Q'', [''P'']), (''R'', [''Q''])]
     = Inr [[''P''], [''Q''], [''R'']]" by code_simp
  from buildDependencyGraph_chain[OF h] b e m
  have "dep_edges [(''P'', []), (''Q'', [''P'']), (''R'', [''Q''])] =
     {(agentOrder seq_example ! i, agentOrder seq_example ! (i - 1)) | i.
        0 < i \<and> i < length (agentOrder seq_example)}"
    by simp
  with h b w show ?thesis by blast
qed

lemma deps_list_iff: "w \<in> set (deps_list g a) \<longleftrightarrow> (a, w) \<in> dep_edges g"
  by (cases "map_of g a") (simp_all add: dep_edges_iff deps_list_def)

text \<open>
  C3, as stated, fails: an agent that names itself in \<open>waits_for\<close> is a known agent, so the
  builder adds the self-dependency.
\<close>

theorem buildDependencyGraph_self_edge:
  "buildDependencyGraph \<lparr>mode = ''parallel'', agents = [swarm_agent ''A'' [''A''] []],
       agentOrder = [''A'']\<rparr> = Inr [(''A'', [''A''])] \<and>
   ''A'' \<in> set (deps_list [(''A'', [''A''])] ''A'')"
  by code_simp

text \<open>
  C3, amended. The graph of a definition has exactly the agent names as keys, each once and
  in declaration order of the \<open>Map\<close>; it has no self-dependency provided no agent names
  itself in its own \<open>waits_for\<close> or \<open>reports_to\<close> list.
\<close>

theorem buildDependencyGraph_keys:
  assumes "valid_def d"
  shows "\<exists>g. buildDependencyGraph d = Inr g \<and> map fst g = map fst (agents d) \<and>
           distinct (map fst g) \<and>
           ((\<forall>(a, ag) \<in> set (agents d). a \<notin> set (waitsFor ag) \<and> a \<notin> set (reportsTo ag)) \<longrightarrow>
            (\<forall>a. a \<notin> set (deps_list g a)))"
proof -
  from assms obtain g where g: "buildDependencyGraph d = Inr g"
    and k: "map fst g = map fst (agents d)" and wf: "wf_graph g"
    and e: "dep_edges g =
       (if chain_gate d then chain_edges (agentOrder d) else explicit_edges d \<union> inverse_edges d)"
    by (rule valid_def_ok)
  from assms have do: "distinct (agentOrder d)" by (simp add: valid_def_def)
  have irrefl: "a \<notin> set (deps_list g a)"
    if noself: "\<forall>(a, ag) \<in> set (agents d). a \<notin> set (waitsFor ag) \<and> a \<notin> set (reportsTo ag)"
    for a
  proof
    assume "a \<in> set (deps_list g a)"
    then have "(a, a) \<in> dep_edges g" by (simp add: deps_list_iff)
    with e chain_edges_irrefl[OF do, of a]
    have "(a, a) \<in> explicit_edges d \<or> (a, a) \<in> inverse_edges d"
      by (auto split: if_splits)
    with noself show False
      unfolding explicit_edges_iff inverse_edges_iff by blast
  qed
  from wf have "distinct (map fst g)" by (simp add: wf_graph_def)
  with g k irrefl show ?thesis by blast
qed

definition abc_example :: SwarmDefinition where
  "abc_example = \<lparr>mode = ''parallel'',
     agents = [swarm_agent ''A'' [] [], swarm_agent ''B'' [''A''] [],
               swarm_agent ''C'' [''B'', ''Z''] []],
     agentOrder = [''A'', ''B'', ''C'']\<rparr>"

theorem buildDependencyGraph_keys_witness:
  "valid_def abc_example \<and>
   list_all (\<lambda>(a, ag). a \<notin> set (waitsFor ag) \<and> a \<notin> set (reportsTo ag)) (agents abc_example) \<and>
   buildDependencyGraph abc_example = Inr [(''A'', []), (''B'', [''A'']), (''C'', [''B''])] \<and>
   (\<forall>a. a \<notin> set (deps_list [(''A'', []), (''B'', [''A'']), (''C'', [''B''])] a))"
proof -
  have h: "valid_def abc_example"
    by (simp add: valid_def_def abc_example_def swarm_agent_def)
  have n: "\<forall>(a, ag) \<in> set (agents abc_example). a \<notin> set (waitsFor ag) \<and> a \<notin> set (reportsTo ag)"
    by (simp add: abc_example_def swarm_agent_def)
  have b: "buildDependencyGraph abc_example = Inr [(''A'', []), (''B'', [''A'']), (''C'', [''B''])]"
    by code_simp
  from buildDependencyGraph_keys[OF h] b n
  have "\<forall>a. a \<notin> set (deps_list [(''A'', []), (''B'', [''A'']), (''C'', [''B''])] a)"
    by simp
  moreover from n
  have "list_all (\<lambda>(a, ag). a \<notin> set (waitsFor ag) \<and> a \<notin> set (reportsTo ag)) (agents abc_example)"
    unfolding list_all_iff .
  ultimately show ?thesis using h b by blast
qed

text \<open>
  C8. The builder never fails on a definition; every name in a dependency set of the result
  is a known agent; a known name of an agent's \<open>waits_for\<close> list is in that agent's
  dependency set, and an unknown one is in no dependency set at all.
\<close>

theorem buildDependencyGraph_lenient:
  assumes "valid_def d"
  shows "\<exists>g. buildDependencyGraph d = Inr g \<and>
           (\<forall>a w. w \<in> set (deps_list g a) \<longrightarrow> map_has (agents d) w) \<and>
           (\<forall>(a, ag) \<in> set (agents d). \<forall>w \<in> set (waitsFor ag).
              if map_has (agents d) w then w \<in> set (deps_list g a)
              else (\<forall>n. w \<notin> set (deps_list g n)))"
proof -
  from assms obtain g where g: "buildDependencyGraph d = Inr g"
    and k: "map fst g = map fst (agents d)"
    and e: "dep_edges g =
       (if chain_gate d then chain_edges (agentOrder d) else explicit_edges d \<union> inverse_edges d)"
    by (rule valid_def_ok)
  from assms have so: "set (agentOrder d) = set (map fst (agents d))" by (simp add: valid_def_def)
  note dl = deps_list_iff[of _ g]
  have known: "map_has (agents d) w" if "w \<in> set (deps_list g a)" for a w
  proof -
    from that have "(a, w) \<in> dep_edges g" by (simp add: dl)
    then consider "(a, w) \<in> chain_edges (agentOrder d)" | "(a, w) \<in> explicit_edges d"
      | "(a, w) \<in> inverse_edges d"
      unfolding e by (auto split: if_splits)
    then show ?thesis
    proof cases
      case 1
      from chain_edges_known[OF this] so show ?thesis by (simp add: map_has_def)
    next
      case 2
      then show ?thesis unfolding explicit_edges_iff by (auto simp: map_has_def)
    next
      case 3
      then have "\<exists>ag. (w, ag) \<in> set (agents d)" unfolding inverse_edges_iff by blast
      then show ?thesis by (auto simp: map_has_def intro: rev_image_eqI)
    qed
  qed
  have added: "w \<in> set (deps_list g a)"
    if "(a, ag) \<in> set (agents d)" "w \<in> set (waitsFor ag)" "map_has (agents d) w" for a ag w
  proof -
    from that have x: "(a, w) \<in> explicit_edges d"
      unfolding explicit_edges_iff by (auto simp: map_has_def)
    then have "\<not> chain_gate d" by (auto simp: chain_gate_def)
    with e x show ?thesis by (simp add: dl)
  qed
  from g known added show ?thesis by (intro exI[of _ g]) (auto split: if_splits)
qed

theorem buildDependencyGraph_lenient_witness:
  "valid_def abc_example \<and>
   swarm_agent ''C'' [''B'', ''Z''] [] \<in> set (agents abc_example) \<and>
   map_has (agents abc_example) ''B'' \<and> \<not> map_has (agents abc_example) ''Z'' \<and>
   (\<exists>g. buildDependencyGraph abc_example = Inr g \<and> ''B'' \<in> set (deps_list g ''C'') \<and>
      (\<forall>n. ''Z'' \<notin> set (deps_list g n)))"
proof -
  have h: "valid_def abc_example"
    by (simp add: valid_def_def abc_example_def swarm_agent_def)
  have c: "(''C'', snd (swarm_agent ''C'' [''B'', ''Z''] [])) \<in> set (agents abc_example)"
    by (simp add: abc_example_def swarm_agent_def)
  have w: "waitsFor (snd (swarm_agent ''C'' [''B'', ''Z''] [])) = [''B'', ''Z'']"
    by (simp add: swarm_agent_def)
  have kb: "map_has (agents abc_example) ''B''"
    by (simp add: map_has_def abc_example_def swarm_agent_def)
  have kz: "\<not> map_has (agents abc_example) ''Z''"
    by (simp add: map_has_def abc_example_def swarm_agent_def)
  from buildDependencyGraph_lenient[OF h] obtain g
    where g: "buildDependencyGraph abc_example = Inr g"
      and a: "\<forall>(a, ag) \<in> set (agents abc_example). \<forall>w \<in> set (waitsFor ag).
              if map_has (agents abc_example) w then w \<in> set (deps_list g a)
              else (\<forall>n. w \<notin> set (deps_list g n))"
    by blast
  from a c have "\<forall>w \<in> set (waitsFor (snd (swarm_agent ''C'' [''B'', ''Z''] []))).
      if map_has (agents abc_example) w then w \<in> set (deps_list g ''C'')
      else (\<forall>n. w \<notin> set (deps_list g n))"
    by blast
  with kb kz have "''B'' \<in> set (deps_list g ''C'')" "\<forall>n. ''Z'' \<notin> set (deps_list g n)"
    unfolding w by auto
  moreover have "swarm_agent ''C'' [''B'', ''Z''] [] \<in> set (agents abc_example)"
    by (simp add: abc_example_def)
  ultimately show ?thesis using h kb kz g by blast
qed

text \<open>
  C9. If a known agent \<open>b\<close> appears in the \<open>reports_to\<close> list of agent \<open>a\<close>, then \<open>a\<close> is in the
  dependency set of \<open>b\<close> in the built graph. For agents \<open>X\<close>, \<open>Y\<close> with \<open>X.reportsTo = [Y]\<close>
  the graph is \<open>{X: [], Y: [X]}\<close> in every mode, and its waves are \<open>[[X], [Y]]\<close>.
\<close>

theorem buildDependencyGraph_reports_to:
  "(valid_def d \<and> (a, ag) \<in> set (agents d) \<and> b \<in> set (reportsTo ag) \<and> map_has (agents d) b
      \<longrightarrow> (\<exists>g. buildDependencyGraph d = Inr g \<and> a \<in> set (deps_list g b))) \<and>
   buildDependencyGraph \<lparr>mode = m,
       agents = [swarm_agent ''X'' [] [''Y''], swarm_agent ''Y'' [] []],
       agentOrder = [''X'', ''Y'']\<rparr> = Inr [(''X'', []), (''Y'', [''X''])] \<and>
   buildExecutionWaves [(''X'', []), (''Y'', [''X''])] = Inr [[''X''], [''Y'']]"
proof -
  have 1: "\<exists>g. buildDependencyGraph d = Inr g \<and> a \<in> set (deps_list g b)"
    if v: "valid_def d" and m: "(a, ag) \<in> set (agents d)" "b \<in> set (reportsTo ag)"
      "map_has (agents d) b"
  proof -
    from v obtain g where g: "buildDependencyGraph d = Inr g"
      and e: "dep_edges g =
       (if chain_gate d then chain_edges (agentOrder d) else explicit_edges d \<union> inverse_edges d)"
      by (rule valid_def_ok)
    from m have x: "(b, a) \<in> inverse_edges d"
      unfolding inverse_edges_iff by (auto simp: map_has_def)
    then have "\<not> chain_gate d" by (auto simp: chain_gate_def)
    with e x have "(b, a) \<in> dep_edges g" by simp
    then have "a \<in> set (deps_list g b)" by (simp add: deps_list_iff)
    with g show ?thesis by blast
  qed
  have 2: "buildDependencyGraph \<lparr>mode = m,
       agents = [swarm_agent ''X'' [] [''Y''], swarm_agent ''Y'' [] []],
       agentOrder = [''X'', ''Y'']\<rparr> = Inr [(''X'', []), (''Y'', [''X''])]"
    by (simp add: buildDependencyGraph_def swarm_agent_def map_has_def graph_add_def
        set_add_def hasExplicitDeps_def)
  have 3: "buildExecutionWaves [(''X'', []), (''Y'', [''X''])] = Inr [[''X''], [''Y'']]"
    by code_simp
  from 1 2 3 show ?thesis by blast
qed

definition xy_example :: SwarmDefinition where
  "xy_example = \<lparr>mode = ''pipeline'',
     agents = [swarm_agent ''X'' [] [''Y''], swarm_agent ''Y'' [] []],
     agentOrder = [''X'', ''Y'']\<rparr>"

theorem buildDependencyGraph_reports_to_witness:
  "valid_def xy_example \<and>
   swarm_agent ''X'' [] [''Y''] \<in> set (agents xy_example) \<and>
   ''Y'' \<in> set (reportsTo (snd (swarm_agent ''X'' [] [''Y'']))) \<and>
   map_has (agents xy_example) ''Y'' \<and>
   (\<exists>g. buildDependencyGraph xy_example = Inr g \<and> ''X'' \<in> set (deps_list g ''Y''))"
proof -
  have h: "valid_def xy_example"
    by (simp add: valid_def_def xy_example_def swarm_agent_def)
  have c: "(''X'', snd (swarm_agent ''X'' [] [''Y''])) \<in> set (agents xy_example)"
    by (simp add: xy_example_def swarm_agent_def)
  have r: "''Y'' \<in> set (reportsTo (snd (swarm_agent ''X'' [] [''Y''])))"
    by (simp add: swarm_agent_def)
  have k: "map_has (agents xy_example) ''Y''"
    by (simp add: map_has_def xy_example_def swarm_agent_def)
  have "swarm_agent ''X'' [] [''Y''] \<in> set (agents xy_example)"
    by (simp add: xy_example_def)
  with buildDependencyGraph_reports_to[of xy_example "''X''" "snd (swarm_agent ''X'' [] [''Y''])" "''Y''"]
    h c r k show ?thesis by blast
qed

subsection \<open>The graphs of the pipeline\<close>

text \<open>
  The graph the builder returns for a definition is \<open>Map\<close>-shaped and every dependency name
  in it is a key, so it meets the conditions under which cycle detection and wave scheduling
  are characterised above; once \<open>detectCycles\<close> has returned \<open>null\<close> for it, as the runner
  requires before it schedules, \<open>buildExecutionWaves\<close> returns waves.
\<close>

lemma closed_graphI:
  assumes "distinct (map fst g)" "\<And>a b. (a, b) \<in> dep_edges g \<Longrightarrow> b \<in> set (map fst g)"
  shows "closed_graph g"
  unfolding closed_graph_def list_all_iff
proof (clarify)
  fix n ds d assume e: "(n, ds) \<in> set g" and d: "d \<in> set ds"
  from e assms(1) have "map_of g n = Some ds" by simp
  with d have "(n, d) \<in> dep_edges g" by (auto simp: dep_edges_iff)
  then show "d \<in> set (map fst g)" by (rule assms(2))
qed

lemma buildDependencyGraph_wf_closed:
  assumes "valid_def d" "buildDependencyGraph d = Inr g"
  shows "wf_graph g" "closed_graph g"
proof -
  from assms(1) obtain g' where g': "buildDependencyGraph d = Inr g'"
    and k: "map fst g' = map fst (agents d)" and wf: "wf_graph g'"
    and e: "dep_edges g' =
       (if chain_gate d then chain_edges (agentOrder d) else explicit_edges d \<union> inverse_edges d)"
    by (rule valid_def_ok)
  from g' assms(2) have eq: "g' = g" by simp
  from wf show "wf_graph g" unfolding eq .
  from assms(1) have so: "set (agentOrder d) = set (map fst (agents d))"
    by (simp add: valid_def_def)
  have "b \<in> set (map fst g')" if "(a, b) \<in> dep_edges g'" for a b
  proof -
    from that consider "(a, b) \<in> chain_edges (agentOrder d)" | "(a, b) \<in> explicit_edges d"
      | "(a, b) \<in> inverse_edges d"
      unfolding e by (auto split: if_splits)
    then show ?thesis
    proof cases
      case 1
      from chain_edges_known[OF this] so k show ?thesis by simp
    next
      case 2
      then show ?thesis unfolding explicit_edges_iff k by blast
    next
      case 3
      then have "\<exists>ag. (b, ag) \<in> set (agents d)" unfolding inverse_edges_iff by blast
      then show ?thesis unfolding k by (auto intro: rev_image_eqI)
    qed
  qed
  with wf have "closed_graph g'" by (intro closed_graphI) (simp_all add: wf_graph_def)
  then show "closed_graph g" unfolding eq .
qed

lemma pipeline_waves:
  assumes "valid_def d" "buildDependencyGraph d = Inr g" "detectCycles g = None"
  shows "\<exists>ws. buildExecutionWaves g = Inr ws"
proof -
  note wf = buildDependencyGraph_wf_closed(1)[OF assms(1,2)]
  from detectCycles_removable[OF wf] assms(3)
  have "\<forall>n \<in> set (map fst g). removable g n" by (simp split: if_splits)
  with buildExecutionWaves_Inr_iff[OF wf_graph_distinct[OF wf]] show ?thesis by blast
qed

subsection \<open>State types (swarm/state.ts)\<close>

text \<open>
  A JavaScript \<open>number\<close> is kept as an integer, \<open>NaN\<close> or one of the two infinities: the
  values that counters, clock readings and exit codes take. \<open>Num n\<close> stands for the double of
  value \<open>n\<close>; fractions are not represented. \<open>truthy_number\<close> is the truth value of a number
  in a condition.
\<close>

datatype number = Num int | NaN | PosInfinity | NegInfinity

definition truthy_number :: "number \<Rightarrow> bool" where
  "truthy_number x = (x \<noteq> Num 0 \<and> x \<noteq> NaN)"

text \<open>
  \<open>AgentState\<close> and \<open>SwarmState\<close> with their fields under the prefixes \<open>ag_\<close> and \<open>sw_\<close>
  (both interfaces have a \<open>name\<close>, a \<open>status\<close> and an \<open>iteration\<close>); an optional field is an
  \<open>option\<close>.

  \<open>agents: Record<string, AgentState>\<close> is a plain object created by the literal \<open>{}\<close>.
  \<open>agents_object\<close> keeps what the code can observe of it: \<open>own\<close>, its own properties in the
  order of their creation, and \<open>proto\<close>, the agent record that has become the object's
  prototype, \<open>None\<close> while the prototype is still \<open>Object.prototype\<close>. (JavaScript lists the
  names that are array indices first; the order matters to nothing below but the order of
  the keys in the document, which \<open>JSON.parse\<close> reads back into the same object.)
\<close>

datatype PipelineStatus = PipelineIdle | PipelineRunning | PipelineCompleted | PipelineFailed
  | PipelineAborted

datatype AgentStatus = Pending | Waiting | Running | Completed | Failed

record AgentState =
  ag_name :: string
  ag_status :: AgentStatus
  ag_iteration :: number
  ag_wave :: number
  ag_startedAt :: "number option"
  ag_completedAt :: "number option"
  ag_error :: "string option"

record agents_object =
  own :: "(string \<times> AgentState) list"
  proto :: "AgentState option"

record SwarmState =
  sw_name :: string
  sw_status :: PipelineStatus
  sw_mode :: string
  sw_iteration :: number
  sw_targetCount :: number
  sw_agents :: agents_object
  sw_startedAt :: number
  sw_completedAt :: "number option"

text \<open>
  \<open>Partial<AgentState>\<close> is \<open>AgentUpdate\<close>: \<open>None\<close> is an absent key; for an optional field
  \<open>Some None\<close> is a key that is present with the value \<open>undefined\<close>, which \<open>Object.assign\<close>
  copies like any other value.
\<close>

record AgentUpdate =
  up_name :: "string option"
  up_status :: "AgentStatus option"
  up_iteration :: "number option"
  up_wave :: "number option"
  up_startedAt :: "number option option"
  up_completedAt :: "number option option"
  up_error :: "string option option"

definition no_update :: AgentUpdate where
  "no_update = \<lparr>up_name = None, up_status = None, up_iteration = None, up_wave = None,
     up_startedAt = None, up_completedAt = None, up_error = None\<rparr>"

definition or_else :: "'a option \<Rightarrow> 'a \<Rightarrow> 'a" where
  "or_else u old = (case u of None \<Rightarrow> old | Some v \<Rightarrow> v)"

definition assign_agent :: "AgentState \<Rightarrow> AgentUpdate \<Rightarrow> AgentState" where
  "assign_agent agent u =
     \<lparr>ag_name = or_else (up_name u) (ag_name agent),
      ag_status = or_else (up_status u) (ag_status agent),
      ag_iteration = or_else (up_iteration u) (ag_iteration agent),
      ag_wave = or_else (up_wave u) (ag_wave agent),
      ag_startedAt = or_else (up_startedAt u) (ag_startedAt agent),
      ag_completedAt = or_else (up_completedAt u) (ag_completedAt agent),
      ag_error = or_else (up_error u) (ag_error agent)\<rparr>"

text \<open>
  The assignment \<open>agents[name] = value\<close>. Every property name creates or overwrites an own
  property, except \<open>__proto__\<close>: unless the object has an own property of that name (which
  only \<open>JSON.parse\<close> creates), the assignment runs the inherited setter, which replaces the
  prototype of the object and creates no property.
\<close>

definition set_agent :: "string \<Rightarrow> AgentState \<Rightarrow> agents_object \<Rightarrow> agents_object" where
  "set_agent nm a ags =
     (if nm = ''__proto__'' \<and> \<not> map_has (own ags) nm
      then ags\<lparr>proto := Some a\<rparr>
      else ags\<lparr>own := AList.update nm a (own ags)\<rparr>)"

text \<open>
  The read \<open>agents[name]\<close>, by the prototype chain: an own property; else, for \<open>__proto__\<close>,
  the prototype itself; else a field of the agent record that is the prototype; else a
  member of \<open>Object.prototype\<close> (all of them functions), or \<open>undefined\<close>. A field of an agent
  record is a string or a number, of which \<open>updateAgent\<close> only tests the truth value.
\<close>

datatype target = OwnAgent AgentState | ProtoAgent AgentState | ObjectPrototype
  | Primitive bool | BuiltinFunction | Undefined

definition object_prototype_members :: "string list" where
  "object_prototype_members =
     [''constructor'', ''__defineGetter__'', ''__defineSetter__'', ''hasOwnProperty'',
      ''__lookupGetter__'', ''__lookupSetter__'', ''isPrototypeOf'', ''propertyIsEnumerable'',
      ''toString'', ''valueOf'', ''toLocaleString'']"

definition builtin_member :: "string \<Rightarrow> target" where
  "builtin_member nm = (if nm \<in> set object_prototype_members then BuiltinFunction else Undefined)"

definition inherited_field :: "AgentState \<Rightarrow> string \<Rightarrow> target" where
  "inherited_field p nm =
     (if nm = ''name'' then Primitive (ag_name p \<noteq> [])
      else if nm = ''status'' then Primitive True
      else if nm = ''iteration'' then Primitive (truthy_number (ag_iteration p))
      else if nm = ''wave'' then Primitive (truthy_number (ag_wave p))
      else if nm = ''startedAt'' then
        (case ag_startedAt p of None \<Rightarrow> Undefined | Some t \<Rightarrow> Primitive (truthy_number t))
      else if nm = ''completedAt'' then
        (case ag_completedAt p of None \<Rightarrow> Undefined | Some t \<Rightarrow> Primitive (truthy_number t))
      else if nm = ''error'' then
        (case ag_error p of None \<Rightarrow> Undefined | Some e \<Rightarrow> Primitive (e \<noteq> []))
      else builtin_member nm)"

definition get_agent :: "agents_object \<Rightarrow> string \<Rightarrow> target" where
  "get_agent ags nm =
     (case map_of (own ags) nm of
        Some a \<Rightarrow> OwnAgent a
      | None \<Rightarrow>
          (case proto ags of
             None \<Rightarrow> if nm = ''__proto__'' then ObjectPrototype else builtin_member nm
           | Some p \<Rightarrow> if nm = ''__proto__'' then ProtoAgent p else inherited_field p nm))"

subsection \<open>The persisted document\<close>

text \<open>
  What \<open>#persist\<close> writes is \<open>JSON.stringify(state, null, 2)\<close>, and \<open>load\<close> reads it back with
  \<open>JSON.parse\<close>. The document is kept as the JSON value, between the two: the text is a
  faithful rendering of it. \<open>JSON.stringify\<close> writes the own enumerable properties of an
  object, leaves out a property whose value is \<open>undefined\<close>, and writes \<open>null\<close> for \<open>NaN\<close> and
  the infinities. A prototype is not written.
\<close>

datatype json = JNull | JNum int | JStr string | JObj "(string \<times> json) list"

definition stringify_number :: "number \<Rightarrow> json" where
  "stringify_number x = (case x of Num n \<Rightarrow> JNum n | _ \<Rightarrow> JNull)"

definition opt_field :: "string \<Rightarrow> ('a \<Rightarrow> json) \<Rightarrow> 'a option \<Rightarrow> (string \<times> json) list" where
  "opt_field k enc v = (case v of None \<Rightarrow> [] | Some x \<Rightarrow> [(k, enc x)])"

fun agent_status_str :: "AgentStatus \<Rightarrow> string" where
  "agent_status_str Pending = ''pending''"
| "agent_status_str Waiting = ''waiting''"
| "agent_status_str Running = ''running''"
| "agent_status_str Completed = ''completed''"
| "agent_status_str Failed = ''failed''"

fun pipeline_status_str :: "PipelineStatus \<Rightarrow> string" where
  "pipeline_status_str PipelineIdle = ''idle''"
| "pipeline_status_str PipelineRunning = ''running''"
| "pipeline_status_str PipelineCompleted = ''completed''"
| "pipeline_status_str PipelineFailed = ''failed''"
| "pipeline_status_str PipelineAborted = ''aborted''"

definition stringify_agent :: "AgentState \<Rightarrow> json" where
  "stringify_agent a = JObj
     ([(''name'', JStr (ag_name a)), (''status'', JStr (agent_status_str (ag_status a))),
       (''iteration'', stringify_number (ag_iteration a)),
       (''wave'', stringify_number (ag_wave a))]
      @ opt_field ''startedAt'' stringify_number (ag_startedAt a)
      @ opt_field ''completedAt'' stringify_number (ag_completedAt a)
      @ opt_field ''error'' JStr (ag_error a))"

definition stringify_state :: "SwarmState \<Rightarrow> json" where
  "stringify_state s = JObj
     ([(''name'', JStr (sw_name s)), (''status'', JStr (pipeline_status_str (sw_status s))),
       (''mode'', JStr (sw_mode s)), (''iteration'', stringify_number (sw_iteration s)),
       (''targetCount'', stringify_number (sw_targetCount s)),
       (''agents'', JObj (map (\<lambda>(k, a). (k, stringify_agent a)) (own (sw_agents s)))),
       (''startedAt'', stringify_number (sw_startedAt s))]
      @ opt_field ''completedAt'' stringify_number (sw_completedAt s))"

text \<open>
  \<open>load\<close> casts whatever \<open>JSON.parse\<close> returns to \<open>SwarmState\<close>, without a check. \<open>read_state\<close>
  recognises the documents that are snapshots: an object with the fields of \<open>SwarmState\<close>,
  each of its kind. \<open>parse_state\<close> returns the snapshot of which the document is the exact
  rendering, if there is one; every other document is kept as it is (\<open>Foreign\<close>, below).
\<close>

fun get_str :: "(string \<times> json) list \<Rightarrow> string \<Rightarrow> string option" where
  "get_str kvs k = (case map_of kvs k of Some (JStr v) \<Rightarrow> Some v | _ \<Rightarrow> None)"

fun get_num :: "(string \<times> json) list \<Rightarrow> string \<Rightarrow> number option" where
  "get_num kvs k = (case map_of kvs k of Some (JNum v) \<Rightarrow> Some (Num v) | _ \<Rightarrow> None)"

fun get_opt_str :: "(string \<times> json) list \<Rightarrow> string \<Rightarrow> string option option" where
  "get_opt_str kvs k =
     (case map_of kvs k of None \<Rightarrow> Some None | Some (JStr v) \<Rightarrow> Some (Some v) | _ \<Rightarrow> None)"

fun get_opt_num :: "(string \<times> json) list \<Rightarrow> string \<Rightarrow> number option option" where
  "get_opt_num kvs k =
     (case map_of kvs k of None \<Rightarrow> Some None | Some (JNum v) \<Rightarrow> Some (Some (Num v))
      | _ \<Rightarrow> None)"

definition parse_agent_status :: "string \<Rightarrow> AgentStatus option" where
  "parse_agent_status s =
     (if s = ''pending'' then Some Pending else if s = ''waiting'' then Some Waiting
      else if s = ''running'' then Some Running else if s = ''completed'' then Some Completed
      else if s = ''failed'' then Some Failed else None)"

definition parse_pipeline_status :: "string \<Rightarrow> PipelineStatus option" where
  "parse_pipeline_status s =
     (if s = ''idle'' then Some PipelineIdle else if s = ''running'' then Some PipelineRunning
      else if s = ''completed'' then Some PipelineCompleted
      else if s = ''failed'' then Some PipelineFailed
      else if s = ''aborted'' then Some PipelineAborted else None)"

definition read_agent :: "json \<Rightarrow> AgentState option" where
  "read_agent j =
     (case j of
        JObj kvs \<Rightarrow>
          (case (get_str kvs ''name'', Option.bind (get_str kvs ''status'') parse_agent_status,
                 get_num kvs ''iteration'', get_num kvs ''wave'',
                 get_opt_num kvs ''startedAt'', get_opt_num kvs ''completedAt'',
                 get_opt_str kvs ''error'') of
             (Some n, Some st, Some it, Some wv, Some sa, Some ca, Some er) \<Rightarrow>
               Some \<lparr>ag_name = n, ag_status = st, ag_iteration = it, ag_wave = wv,
                     ag_startedAt = sa, ag_completedAt = ca, ag_error = er\<rparr>
           | _ \<Rightarrow> None)
      | _ \<Rightarrow> None)"

fun read_agents :: "(string \<times> json) list \<Rightarrow> (string \<times> AgentState) list option" where
  "read_agents [] = Some []"
| "read_agents ((k, j) # rest) =
     (case (read_agent j, read_agents rest) of
        (Some a, Some as) \<Rightarrow> Some ((k, a) # as)
      | _ \<Rightarrow> None)"

definition read_state :: "json \<Rightarrow> SwarmState option" where
  "read_state j =
     (case j of
        JObj kvs \<Rightarrow>
          (case (get_str kvs ''name'', Option.bind (get_str kvs ''status'') parse_pipeline_status,
                 get_str kvs ''mode'', get_num kvs ''iteration'', get_num kvs ''targetCount'',
                 (case map_of kvs ''agents'' of Some (JObj as) \<Rightarrow> read_agents as | _ \<Rightarrow> None),
                 get_num kvs ''startedAt'', get_opt_num kvs ''completedAt'') of
             (Some n, Some st, Some m, Some it, Some tc, Some as, Some sa, Some ca) \<Rightarrow>
               Some \<lparr>sw_name = n, sw_status = st, sw_mode = m, sw_iteration = it,
                     sw_targetCount = tc, sw_agents = \<lparr>own = as, proto = None\<rparr>,
                     sw_startedAt = sa, sw_completedAt = ca\<rparr>
           | _ \<Rightarrow> None)
      | _ \<Rightarrow> None)"

definition parse_state :: "json \<Rightarrow> SwarmState option" where
  "parse_state j =
     (case read_state j of
        None \<Rightarrow> None
      | Some s \<Rightarrow> if stringify_state s = j then Some s else None)"

text \<open>
  The snapshots that \<open>JSON.stringify\<close> renders without loss: every number is finite and the
  agents object has its original prototype.
\<close>

definition is_finite :: "number \<Rightarrow> bool" where
  "is_finite x = (case x of Num n \<Rightarrow> True | _ \<Rightarrow> False)"

definition opt_finite :: "number option \<Rightarrow> bool" where
  "opt_finite x = (case x of None \<Rightarrow> True | Some v \<Rightarrow> is_finite v)"

definition stable_agent :: "AgentState \<Rightarrow> bool" where
  "stable_agent a = (is_finite (ag_iteration a) \<and> is_finite (ag_wave a) \<and>
     opt_finite (ag_startedAt a) \<and> opt_finite (ag_completedAt a))"

definition stable_state :: "SwarmState \<Rightarrow> bool" where
  "stable_state s = (is_finite (sw_iteration s) \<and> is_finite (sw_targetCount s) \<and>
     is_finite (sw_startedAt s) \<and> opt_finite (sw_completedAt s) \<and>
     proto (sw_agents s) = None \<and> list_all (\<lambda>(k, a). stable_agent a) (own (sw_agents s)))"

lemma parse_agent_status_str [simp]: "parse_agent_status (agent_status_str s) = Some s"
  by (cases s) (simp_all add: parse_agent_status_def)

lemma parse_pipeline_status_str [simp]: "parse_pipeline_status (pipeline_status_str s) = Some s"
  by (cases s) (simp_all add: parse_pipeline_status_def)

lemma is_finite_iff: "is_finite x \<longleftrightarrow> (\<exists>n. x = Num n)"
  by (cases x) (simp_all add: is_finite_def)

lemma opt_finite_iff: "opt_finite x \<longleftrightarrow> x = None \<or> (\<exists>n. x = Some (Num n))"
  by (cases x) (auto simp: opt_finite_def is_finite_iff)

lemma read_stringify_agent:
  assumes "stable_agent a"
  shows "read_agent (stringify_agent a) = Some a"
proof -
  from assms obtain i w where iw: "ag_iteration a = Num i" "ag_wave a = Num w"
    unfolding stable_agent_def is_finite_iff by blast
  from assms have s: "ag_startedAt a = None \<or> (\<exists>n. ag_startedAt a = Some (Num n))"
    and c: "ag_completedAt a = None \<or> (\<exists>n. ag_completedAt a = Some (Num n))"
    unfolding stable_agent_def opt_finite_iff by blast+
  have e: "ag_error a = None \<or> (\<exists>e. ag_error a = Some e)" by (cases "ag_error a") auto
  from s c e iw show ?thesis
    by (elim disjE exE)
       (simp_all add: read_agent_def stringify_agent_def opt_field_def stringify_number_def)
qed

lemma read_stringify_agents:
  "list_all (\<lambda>(k, a). stable_agent a) as \<Longrightarrow>
   read_agents (map (\<lambda>(k, a). (k, stringify_agent a)) as) = Some as"
  by (induction as) (auto simp: read_stringify_agent)

lemma read_stringify_state:
  assumes "stable_state s"
  shows "read_state (stringify_state s) = Some s"
proof -
  from assms obtain i t st where n: "sw_iteration s = Num i" "sw_targetCount s = Num t"
      "sw_startedAt s = Num st"
    unfolding stable_state_def is_finite_iff by blast
  from assms have p: "proto (sw_agents s) = None"
    and a: "list_all (\<lambda>(k, a). stable_agent a) (own (sw_agents s))"
    and c: "sw_completedAt s = None \<or> (\<exists>n. sw_completedAt s = Some (Num n))"
    unfolding stable_state_def opt_finite_iff by blast+
  from p have ags: "\<lparr>own = own (sw_agents s), proto = None\<rparr> = sw_agents s" by simp
  from c n ags show ?thesis
    by (elim disjE exE)
       (simp_all add: read_state_def stringify_state_def opt_field_def stringify_number_def
          read_stringify_agents[OF a])
qed

lemma parse_stringify_state: "stable_state s \<Longrightarrow> parse_state (stringify_state s) = Some s"
  by (simp add: parse_state_def read_stringify_state)

subsection \<open>Paths (node:path, POSIX)\<close>

text \<open>
  \<open>path.join\<close> of \<open>node:path\<close> on POSIX: the non-empty arguments are joined by \<open>/\<close> and the
  result is normalised (\<open>normalizeString\<close> drops empty and \<open>.\<close> segments and resolves \<open>..\<close>
  against the segment before it). \<open>dir_prefixes p\<close> are the directories above \<open>p\<close>, the
  outermost first; \<open>dirname p\<close> is the innermost of them.
\<close>

fun split_on :: "char \<Rightarrow> string \<Rightarrow> string list" where
  "split_on c [] = [[]]"
| "split_on c (x # xs) =
     (if x = c then [] # split_on c xs
      else (case split_on c xs of [] \<Rightarrow> [[x]] | s # ss \<Rightarrow> (x # s) # ss))"

fun normalizeString :: "bool \<Rightarrow> string list \<Rightarrow> string list \<Rightarrow> string list" where
  "normalizeString allowAboveRoot [] res = rev res"
| "normalizeString allowAboveRoot (seg # segs) res =
     (if seg = [] \<or> seg = ''.'' then normalizeString allowAboveRoot segs res
      else if seg = ''..'' then
        (if res = [] \<or> hd res = ''..''
         then normalizeString allowAboveRoot segs (if allowAboveRoot then ''..'' # res else res)
         else normalizeString allowAboveRoot segs (tl res))
      else normalizeString allowAboveRoot segs (seg # res))"

fun join_with :: "string \<Rightarrow> string list \<Rightarrow> string" where
  "join_with sep [] = []"
| "join_with sep [x] = x"
| "join_with sep (x # y # ys) = x @ sep @ join_with sep (y # ys)"

definition normalize :: "string \<Rightarrow> string" where
  "normalize p =
     (if p = [] then ''.''
      else (let isAbsolute = (hd p = CHR ''/'');
                trailingSeparator = (last p = CHR ''/'');
                body = join_with ''/''
                         (normalizeString (\<not> isAbsolute) (split_on CHR ''/'' p) [])
            in if body = [] then (if isAbsolute then ''/''
                                  else if trailingSeparator then ''./'' else ''.'')
               else (if isAbsolute then ''/'' else []) @ body @
                    (if trailingSeparator then ''/'' else [])))"

definition path_join :: "string list \<Rightarrow> string" where
  "path_join args =
     (case filter (\<lambda>arg. arg \<noteq> []) args of
        [] \<Rightarrow> ''.''
      | parts \<Rightarrow> normalize (join_with ''/'' parts))"

definition dir_prefixes :: "string \<Rightarrow> string list" where
  "dir_prefixes p =
     map (\<lambda>i. if i = 0 then ''/'' else take i p)
         (filter (\<lambda>i. p ! i = CHR ''/'') [0..<length p])"

definition dirname :: "string \<Rightarrow> string" where
  "dirname p = (case dir_prefixes p of [] \<Rightarrow> ''.'' | q # qs \<Rightarrow> last (q # qs))"

subsection \<open>The file system\<close>

text \<open>
  A thrown value is an \<open>Error\<close> with its message, or any other value with its rendering by
  \<open>String\<close>. An asynchronous call resolves with a value or rejects with a thrown value;
  \<open>OutsideModel\<close> marks the calls whose effect is not described here (they are named where
  they arise), so that nothing is claimed about them.
\<close>

datatype thrown = ErrorObject string | OtherValue string

datatype 'a result = Resolved 'a | Rejected thrown | OutsideModel

text \<open>
  The file system holds directories and files. A file has the JSON document last written to
  it as a whole (\<open>None\<close> when its content is not a JSON text) and the texts appended since.
  \<open>denied\<close> are the paths the process may not create or write, \<open>unreadable\<close> the paths it may
  not read, and \<open>fs_message\<close> is the message of the error the system raises for a path: the
  three are given by the environment.
\<close>

record fs_file =
  doc :: "json option"
  tail :: "string list"

record world =
  dirs :: "string set"
  files :: "string \<Rightarrow> fs_file option"
  denied :: "string set"
  unreadable :: "string set"
  fs_message :: "string \<Rightarrow> string"

text \<open>
  \<open>fs.mkdir(p, {recursive: true})\<close> creates \<open>p\<close> and the missing directories above it, and
  succeeds when \<open>p\<close> is already a directory; it fails when a file stands at \<open>p\<close> or above it.
  \<open>Bun.write(p, text)\<close> replaces the file at \<open>p\<close>, creating the missing directories above it;
  it fails when \<open>p\<close> is a directory or a file stands above it. \<open>fs.appendFile(p, text)\<close>
  creates the file when it is missing but never a directory: it fails when the directory
  of \<open>p\<close> does not exist, and when \<open>p\<close> is a directory. \<open>Bun.file(p).text()\<close> fails on a
  missing file, a directory and an unreadable file.
\<close>

definition is_dir :: "world \<Rightarrow> string \<Rightarrow> bool" where
  "is_dir w p = (p \<in> dirs w \<or> p = ''/'' \<or> p = ''.'' \<or>
                 (p \<noteq> [] \<and> list_all (\<lambda>seg. seg = ''..'') (split_on CHR ''/'' p)))"

definition blocked :: "world \<Rightarrow> string \<Rightarrow> bool" where
  "blocked w p = list_ex (\<lambda>q. files w q \<noteq> None) (dir_prefixes p)"

definition fs_error :: "world \<Rightarrow> string \<Rightarrow> thrown" where
  "fs_error w p = ErrorObject (fs_message w p)"

definition fs_mkdir :: "string \<Rightarrow> world \<Rightarrow> thrown option \<times> world" where
  "fs_mkdir p w =
     (if p \<in> denied w \<or> blocked w p \<or> files w p \<noteq> None then (Some (fs_error w p), w)
      else (None, w\<lparr>dirs := dirs w \<union> set (dir_prefixes p) \<union> {p}\<rparr>))"

definition fs_write :: "string \<Rightarrow> json \<Rightarrow> world \<Rightarrow> thrown option \<times> world" where
  "fs_write p j w =
     (if p \<in> denied w \<or> blocked w p \<or> is_dir w p then (Some (fs_error w p), w)
      else (None, w\<lparr>dirs := dirs w \<union> set (dir_prefixes p),
                     files := (files w)(p \<mapsto> \<lparr>doc = Some j, tail = []\<rparr>)\<rparr>))"

definition fs_append :: "string \<Rightarrow> string \<Rightarrow> world \<Rightarrow> thrown option \<times> world" where
  "fs_append p text w =
     (if p \<in> denied w \<or> is_dir w p \<or> \<not> is_dir w (dirname p) \<or> files w (dirname p) \<noteq> None
      then (Some (fs_error w p), w)
      else (None, w\<lparr>files := (files w)(p \<mapsto>
              (case files w p of
                 None \<Rightarrow> \<lparr>doc = None, tail = [text]\<rparr>
               | Some f \<Rightarrow> f\<lparr>tail := tail f @ [text]\<rparr>))\<rparr>))"

definition fs_read :: "string \<Rightarrow> world \<Rightarrow> fs_file option" where
  "fs_read p w = (if p \<in> unreadable w \<or> is_dir w p then None else files w p)"

definition log_lines :: "world \<Rightarrow> string \<Rightarrow> string list" where
  "log_lines w p = (case files w p of None \<Rightarrow> [] | Some f \<Rightarrow> tail f)"

subsection \<open>StateTracker (swarm/state.ts)\<close>

text \<open>
  The tracker has its directory and its state. The state is a snapshot, or, after \<open>load\<close>
  has read a document that is not one, that document (\<open>Foreign\<close>). The process state is
  passed along: every method takes the tracker and the file system and returns its result
  with both. \<open>Date.now()\<close> is a parameter of the methods that read it.
\<close>

datatype state_value = Snapshot SwarmState | Foreign json

record StateTracker =
  swarmDir :: string
  state :: state_value

type_synonym 'a io = "'a result \<times> StateTracker \<times> world"

definition new_StateTracker :: "string \<Rightarrow> string \<Rightarrow> int \<Rightarrow> StateTracker" where
  "new_StateTracker workspaceDir nm now =
     \<lparr>swarmDir = path_join [workspaceDir, ''.swarm_'' @ nm],
      state = Snapshot
        \<lparr>sw_name = nm, sw_status = PipelineIdle, sw_mode = ''sequential'',
         sw_iteration = Num 0, sw_targetCount = Num 1,
         sw_agents = \<lparr>own = [], proto = None\<rparr>, sw_startedAt = Num now,
         sw_completedAt = None\<rparr>\<rparr>"

definition state_path :: "StateTracker \<Rightarrow> string" where
  "state_path tr = path_join [swarmDir tr, ''state'', ''pipeline.json'']"

definition stringify :: "state_value \<Rightarrow> json" where
  "stringify v = (case v of Snapshot s \<Rightarrow> stringify_state s | Foreign j \<Rightarrow> j)"

definition persist :: "StateTracker \<times> world \<Rightarrow> unit io" where
  "persist trw =
     (case trw of (tr, w) \<Rightarrow>
        (case fs_write (state_path tr) (stringify (state tr)) w of
           (Some e, w') \<Rightarrow> (Rejected e, tr, w')
         | (None, w') \<Rightarrow> (Resolved (), tr, w')))"

definition fresh_agent :: "string \<Rightarrow> AgentState" where
  "fresh_agent nm = \<lparr>ag_name = nm, ag_status = Pending, ag_iteration = Num 0, ag_wave = Num 0,
     ag_startedAt = None, ag_completedAt = None, ag_error = None\<rparr>"

definition mkdirs :: "string list \<Rightarrow> world \<Rightarrow> thrown option \<times> world" where
  "mkdirs ps w =
     fold (\<lambda>p r. case r of (Some e, w') \<Rightarrow> (Some e, w') | (None, w') \<Rightarrow> fs_mkdir p w')
          ps (None, w)"

text \<open>
  \<open>init\<close> creates the three directories, then updates the state, then persists. A rejected
  \<open>mkdir\<close> leaves the state as it was. On a tracker whose state is not a snapshot the
  property writes are not described.
\<close>

definition init :: "string list \<Rightarrow> number \<Rightarrow> string \<Rightarrow> int \<Rightarrow> StateTracker \<times> world \<Rightarrow> unit io" where
  "init agentNames targetCount md now trw =
     (case trw of (tr, w) \<Rightarrow>
        (case mkdirs [path_join [swarmDir tr, ''state''], path_join [swarmDir tr, ''logs''],
                      path_join [swarmDir tr, ''context'']] w of
           (Some e, w') \<Rightarrow> (Rejected e, tr, w')
         | (None, w') \<Rightarrow>
             (case state tr of
                Foreign j \<Rightarrow> (OutsideModel, tr, w')
              | Snapshot s \<Rightarrow>
                  persist
                    (tr\<lparr>state := Snapshot
                          (s\<lparr>sw_targetCount := targetCount, sw_mode := md,
                             sw_status := PipelineRunning, sw_startedAt := Num now,
                             sw_agents := fold (\<lambda>nm. set_agent nm (fresh_agent nm)) agentNames
                                            (sw_agents s)\<rparr>)\<rparr>,
                     w'))))"

text \<open>
  \<open>updateAgent\<close> reads \<open>agents[name]\<close> and returns when the value is falsy. An agent record,
  own or reached as the prototype, is updated in place and the state persisted. A truthy
  string or number is wrapped by \<open>Object.assign\<close> in a temporary object, which leaves the
  state unchanged, and the state is persisted. For \<open>Object.prototype\<close> and its functions
  \<open>Object.assign\<close> writes to objects shared by the whole process: not described.
\<close>

definition updateAgent :: "string \<Rightarrow> AgentUpdate \<Rightarrow> StateTracker \<times> world \<Rightarrow> unit io" where
  "updateAgent nm u trw =
     (case trw of (tr, w) \<Rightarrow>
        (case state tr of
           Foreign j \<Rightarrow> (OutsideModel, tr, w)
         | Snapshot s \<Rightarrow>
             (case get_agent (sw_agents s) nm of
                Undefined \<Rightarrow> (Resolved (), tr, w)
              | Primitive truthy \<Rightarrow> if truthy then persist (tr, w) else (Resolved (), tr, w)
              | BuiltinFunction \<Rightarrow> (OutsideModel, tr, w)
              | ObjectPrototype \<Rightarrow> (OutsideModel, tr, w)
              | ProtoAgent p \<Rightarrow>
                  persist (tr\<lparr>state := Snapshot
                            (s\<lparr>sw_agents := (sw_agents s)\<lparr>proto := Some (assign_agent p u)\<rparr>\<rparr>)\<rparr>, w)
              | OwnAgent agent \<Rightarrow>
                  persist (tr\<lparr>state := Snapshot
                            (s\<lparr>sw_agents := (sw_agents s)\<lparr>own :=
                                 AList.update nm (assign_agent agent u) (own (sw_agents s))\<rparr>\<rparr>)\<rparr>,
                           w))))"

text \<open>
  \<open>appendLog\<close> takes the time stamp \<open>new Date().toISOString()\<close> as a parameter.
\<close>

definition log_path :: "StateTracker \<Rightarrow> string \<Rightarrow> string" where
  "log_path tr agentName = path_join [swarmDir tr, ''logs'', agentName @ ''.log'']"

definition log_line :: "string \<Rightarrow> string \<Rightarrow> string" where
  "log_line timestamp message = ''['' @ timestamp @ ''] '' @ message @ [CHR 0x0A]"

definition appendLog :: "string \<Rightarrow> string \<Rightarrow> string \<Rightarrow> StateTracker \<times> world \<Rightarrow> unit io" where
  "appendLog agentName message timestamp trw =
     (case trw of (tr, w) \<Rightarrow>
        (case fs_append (log_path tr agentName) (log_line timestamp message) w of
           (Some e, w') \<Rightarrow> (Rejected e, tr, w')
         | (None, w') \<Rightarrow> (Resolved (), tr, w')))"

text \<open>
  \<open>load\<close> returns \<open>null\<close> when the file cannot be read or is not a JSON text. Otherwise it
  installs what \<open>JSON.parse\<close> returns as the state and returns it (\<open>null\<close> for the document
  \<open>null\<close>). A state file that has been appended to is not described.
\<close>

definition load :: "StateTracker \<times> world \<Rightarrow> state_value option io" where
  "load trw =
     (case trw of (tr, w) \<Rightarrow>
        (case fs_read (state_path tr) w of
           None \<Rightarrow> (Resolved None, tr, w)
         | Some f \<Rightarrow>
             if tail f \<noteq> [] then (OutsideModel, tr, w)
             else (case doc f of
                     None \<Rightarrow> (Resolved None, tr, w)
                   | Some j \<Rightarrow>
                       (let v = (case parse_state j of Some s \<Rightarrow> Snapshot s | None \<Rightarrow> Foreign j)
                        in (Resolved (if j = JNull then None else Some v),
                            tr\<lparr>state := v\<rparr>, w)))))"

text \<open>
  \<open>agent_entry\<close> is the agent record that \<open>agents[name]\<close> evaluates to, when it is one.
\<close>

definition agent_entry :: "agents_object \<Rightarrow> string \<Rightarrow> AgentState option" where
  "agent_entry ags nm =
     (case get_agent ags nm of OwnAgent a \<Rightarrow> Some a | ProtoAgent a \<Rightarrow> Some a | _ \<Rightarrow> None)"

text \<open>
  \<open>fs_ready w sp lp\<close>: in the file system \<open>w\<close> the snapshot file \<open>sp\<close> can be written and the
  log file \<open>lp\<close> appended to. Neither path is denied or a directory, the directories above
  the snapshot file exist, and the directory of the log file exists.
\<close>

definition fs_ready :: "world \<Rightarrow> string \<Rightarrow> string \<Rightarrow> bool" where
  "fs_ready w sp lp =
     (sp \<noteq> lp \<and> sp \<notin> denied w \<and> lp \<notin> denied w \<and> \<not> is_dir w sp \<and> \<not> is_dir w lp \<and>
      \<not> blocked w sp \<and> list_all (is_dir w) (dir_prefixes sp) \<and>
      is_dir w (dirname lp) \<and> files w (dirname lp) = None)"

text \<open>
  An empty file system, and the agents object of a state.
\<close>

definition empty_world :: world where
  "empty_world = \<lparr>dirs = {}, files = (\<lambda>p. None), denied = {}, unreadable = {},
     fs_message = (\<lambda>p. ''ENOENT: no such file or directory, open '' @ p)\<rparr>"

definition agents_of :: "state_value \<Rightarrow> agents_object" where
  "agents_of v = (case v of Snapshot s \<Rightarrow> sw_agents s | Foreign j \<Rightarrow> \<lparr>own = [], proto = None\<rparr>)"

subsection \<open>The state round trip\<close>

text \<open>
  The update that marks an agent as failed with an error text.
\<close>

definition failed_with :: "string \<Rightarrow> AgentUpdate" where
  "failed_with err = no_update\<lparr>up_status := Some Failed, up_error := Some (Some err)\<rparr>"

lemma dir_prefixes_shorter:
  "q \<in> set (dir_prefixes p) \<Longrightarrow> q = ''/'' \<or> length q < length p"
  by (auto simp: dir_prefixes_def)

lemma fs_write_ok:
  assumes "fs_write p j w = (None, w')"
  shows "files w' p = Some \<lparr>doc = Some j, tail = []\<rparr> \<and> \<not> is_dir w' p \<and>
         unreadable w' = unreadable w"
proof -
  from assms have n: "\<not> is_dir w p"
    and w': "w' = w\<lparr>dirs := dirs w \<union> set (dir_prefixes p),
                   files := (files w)(p \<mapsto> \<lparr>doc = Some j, tail = []\<rparr>)\<rparr>"
    by (auto simp: fs_write_def split: if_splits)
  from n have "p \<noteq> ''/''" by (auto simp: is_dir_def)
  with dir_prefixes_shorter[of p p] have "p \<notin> set (dir_prefixes p)" by auto
  with n have "\<not> is_dir w' p" by (auto simp: is_dir_def w')
  then show ?thesis by (simp add: w')
qed

lemma persist_resolved:
  assumes "persist (tr, w) = (Resolved (), tr', w')"
  shows "tr' = tr \<and> fs_write (state_path tr) (stringify (state tr)) w = (None, w')"
  using assms by (auto simp: persist_def split: prod.splits option.splits)

lemma fold_set_agent:
  "''__proto__'' \<notin> set names \<Longrightarrow>
   fold (\<lambda>nm. set_agent nm (f nm)) names ags =
   ags\<lparr>own := fold (\<lambda>nm. AList.update nm (f nm)) names (own ags)\<rparr>"
  by (induction names arbitrary: ags) (auto simp: set_agent_def)

lemma map_of_fold_update:
  "map_of (fold (\<lambda>nm. AList.update nm (f nm)) names xs) b =
   (if b \<in> set names then Some (f b) else map_of xs b)"
  by (induction names arbitrary: xs) (auto simp: update_conv')

lemma list_all_update:
  "P (k, v) \<Longrightarrow> list_all P xs \<Longrightarrow> list_all P (AList.update k v xs)"
  by (induction xs) auto

lemma list_all_fold_update:
  "(\<And>nm. P (nm, f nm)) \<Longrightarrow> list_all P xs \<Longrightarrow>
   list_all P (fold (\<lambda>nm. AList.update nm (f nm)) names xs)"
  by (induction names arbitrary: xs) (auto simp: list_all_update)

lemma stable_fresh: "stable_agent (fresh_agent nm)"
  by (simp add: stable_agent_def fresh_agent_def is_finite_def opt_finite_def)

lemma assign_failed:
  "assign_agent (fresh_agent a) (failed_with err) =
   \<lparr>ag_name = a, ag_status = Failed, ag_iteration = Num 0, ag_wave = Num 0,
    ag_startedAt = None, ag_completedAt = None, ag_error = Some err\<rparr>"
  by (simp add: assign_agent_def failed_with_def no_update_def or_else_def fresh_agent_def)

lemma init_resolved:
  assumes i: "init agentNames targetCount md now (new_StateTracker ws nm t0, w) =
                (Resolved (), tr1, w1)"
    and p: "''__proto__'' \<notin> set agentNames"
  shows "swarmDir tr1 = swarmDir (new_StateTracker ws nm t0) \<and>
         state tr1 = Snapshot
           \<lparr>sw_name = nm, sw_status = PipelineRunning, sw_mode = md, sw_iteration = Num 0,
            sw_targetCount = targetCount,
            sw_agents = \<lparr>own = fold (\<lambda>a. AList.update a (fresh_agent a)) agentNames [],
                         proto = None\<rparr>,
            sw_startedAt = Num now, sw_completedAt = None\<rparr>"
proof -
  let ?tr0 = "new_StateTracker ws nm t0"
  obtain r w' where m: "mkdirs [path_join [swarmDir ?tr0, ''state''],
      path_join [swarmDir ?tr0, ''logs''], path_join [swarmDir ?tr0, ''context'']] w = (r, w')"
    by (cases "mkdirs [path_join [swarmDir ?tr0, ''state''],
      path_join [swarmDir ?tr0, ''logs''], path_join [swarmDir ?tr0, ''context'']] w") 
  from i m have r: "r = None" by (cases r) (simp_all add: init_def)
  have s0: "state ?tr0 = Snapshot \<lparr>sw_name = nm, sw_status = PipelineIdle,
         sw_mode = ''sequential'', sw_iteration = Num 0, sw_targetCount = Num 1,
         sw_agents = \<lparr>own = [], proto = None\<rparr>, sw_startedAt = Num t0,
         sw_completedAt = None\<rparr>"
    by (simp add: new_StateTracker_def)
  from i have "persist (?tr0\<lparr>state := Snapshot
           \<lparr>sw_name = nm, sw_status = PipelineRunning, sw_mode = md, sw_iteration = Num 0,
            sw_targetCount = targetCount,
            sw_agents = \<lparr>own = fold (\<lambda>a. AList.update a (fresh_agent a)) agentNames [],
                         proto = None\<rparr>,
            sw_startedAt = Num now, sw_completedAt = None\<rparr>\<rparr>, w') = (Resolved (), tr1, w1)"
    unfolding init_def prod.case m r option.case s0 state_value.case
    by (simp add: fold_set_agent[OF p])
  from persist_resolved[OF this] show ?thesis by auto
qed

text \<open>
  C6, amended. Let \<open>init\<close> be called on a new tracker with a list of agent names
  that does not contain \<open>__proto__\<close> and with a finite target count, then \<open>updateAgent\<close> with
  one of the names and a failure with an error text, and let both calls resolve. Then a new
  tracker for the same workspace and name, provided the snapshot file is readable, loads
  exactly the state the first tracker has in memory: \<open>load\<close> returns it and installs it. In
  that state the pipeline is running with the mode, the target count and the start time of
  \<open>init\<close>; the updated agent is \<open>failed\<close> with the error text; every other listed agent is
  as \<open>init\<close> made it: \<open>pending\<close>, iteration 0, wave 0, no time stamps and no error.
\<close>

theorem state_round_trip:
  assumes a: "a \<in> set agentNames"
    and p: "''__proto__'' \<notin> set agentNames"
    and tc: "is_finite targetCount"
    and i: "init agentNames targetCount md t1 (new_StateTracker ws nm t0, w) =
              (Resolved (), tr1, w1)"
    and u: "updateAgent a (failed_with err) (tr1, w1) = (Resolved (), tr2, w2)"
    and rd: "state_path tr2 \<notin> unreadable w2"
  shows "\<exists>s2 loaded.
      load (new_StateTracker ws nm t2, w2) = (Resolved (Some (Snapshot s2)), loaded, w2) \<and>
      state tr2 = Snapshot s2 \<and> state loaded = Snapshot s2 \<and>
      sw_status s2 = PipelineRunning \<and> sw_mode s2 = md \<and> sw_targetCount s2 = targetCount \<and>
      sw_startedAt s2 = Num t1 \<and>
      get_agent (sw_agents s2) a =
        OwnAgent \<lparr>ag_name = a, ag_status = Failed, ag_iteration = Num 0, ag_wave = Num 0,
                  ag_startedAt = None, ag_completedAt = None, ag_error = Some err\<rparr> \<and>
      (\<forall>b \<in> set agentNames. b \<noteq> a \<longrightarrow>
         get_agent (sw_agents s2) b =
           OwnAgent \<lparr>ag_name = b, ag_status = Pending, ag_iteration = Num 0, ag_wave = Num 0,
                     ag_startedAt = None, ag_completedAt = None, ag_error = None\<rparr>)"
proof -
  let ?own1 = "fold (\<lambda>a. AList.update a (fresh_agent a)) agentNames []"
  define s1 where "s1 = \<lparr>sw_name = nm, sw_status = PipelineRunning, sw_mode = md,
      sw_iteration = Num 0, sw_targetCount = targetCount,
      sw_agents = \<lparr>own = ?own1, proto = None\<rparr>, sw_startedAt = Num t1,
      sw_completedAt = None\<rparr>"
  define failed where "failed = assign_agent (fresh_agent a) (failed_with err)"
  define s2 where "s2 = s1\<lparr>sw_agents := (sw_agents s1)\<lparr>own :=
      AList.update a failed (own (sw_agents s1))\<rparr>\<rparr>"
  from init_resolved[OF i p]
  have d1: "swarmDir tr1 = swarmDir (new_StateTracker ws nm t0)" and st1: "state tr1 = Snapshot s1"
    by (simp_all add: s1_def)
  have m1: "map_of ?own1 b = (if b \<in> set agentNames then Some (fresh_agent b) else None)" for b
    by (simp add: map_of_fold_update)
  have g1: "get_agent (sw_agents s1) a = OwnAgent (fresh_agent a)"
    using a by (simp add: get_agent_def s1_def m1)
  from u have "persist (tr1\<lparr>state := Snapshot s2\<rparr>, w1) = (Resolved (), tr2, w2)"
    by (simp add: updateAgent_def st1 g1 s2_def failed_def)
  from persist_resolved[OF this]
  have tr2: "tr2 = tr1\<lparr>state := Snapshot s2\<rparr>"
    and wr: "fs_write (state_path tr1) (stringify_state s2) w1 = (None, w2)"
    by (simp_all add: state_path_def stringify_def)
  have sp: "state_path tr2 = state_path tr1" by (simp add: tr2 state_path_def)
  have spl: "state_path (new_StateTracker ws nm t2) = state_path tr1"
    using d1 by (simp add: state_path_def new_StateTracker_def)
  from fs_write_ok[OF wr]
  have f: "files w2 (state_path tr1) = Some \<lparr>doc = Some (stringify_state s2), tail = []\<rparr>"
    and nd: "\<not> is_dir w2 (state_path tr1)" by simp_all
  from rd have rd': "state_path tr1 \<notin> unreadable w2" unfolding sp .
  have fr: "fs_read (state_path tr1) w2 =
              Some \<lparr>doc = Some (stringify_state s2), tail = []\<rparr>"
    using rd' nd f by (simp add: fs_read_def)
  have stf: "stable_agent failed"
    by (simp add: failed_def assign_failed stable_agent_def is_finite_def opt_finite_def)
  have "list_all (\<lambda>(k, a). stable_agent a) ?own1"
    by (rule list_all_fold_update) (simp_all add: stable_fresh)
  then have "list_all (\<lambda>(k, a). stable_agent a) (AList.update a failed ?own1)"
    by (rule list_all_update[rotated]) (simp add: stf)
  then have "stable_state s2"
    using tc by (simp add: stable_state_def s2_def s1_def is_finite_def opt_finite_def)
  then have ps: "parse_state (stringify_state s2) = Some s2" by (rule parse_stringify_state)
  have nn: "stringify_state s2 \<noteq> JNull" by (simp add: stringify_state_def)
  have ld: "load (new_StateTracker ws nm t2, w2) =
          (Resolved (Some (Snapshot s2)), (new_StateTracker ws nm t2)\<lparr>state := Snapshot s2\<rparr>, w2)"
    unfolding load_def prod.case spl fr option.case
    by (simp add: ps nn Let_def)
  have ga: "get_agent (sw_agents s2) a = OwnAgent failed"
    by (simp add: get_agent_def s2_def update_conv')
  have gb: "get_agent (sw_agents s2) b = OwnAgent (fresh_agent b)"
    if "b \<in> set agentNames" "b \<noteq> a" for b
    using that by (simp add: get_agent_def s2_def s1_def update_conv' m1)
  show ?thesis
  proof (rule exI[of _ s2], rule exI[of _ "(new_StateTracker ws nm t2)\<lparr>state := Snapshot s2\<rparr>"],
         intro conjI ballI impI)
    show "load (new_StateTracker ws nm t2, w2) =
          (Resolved (Some (Snapshot s2)), (new_StateTracker ws nm t2)\<lparr>state := Snapshot s2\<rparr>, w2)"
      by (rule ld)
    show "state tr2 = Snapshot s2" by (simp add: tr2)
    show "state ((new_StateTracker ws nm t2)\<lparr>state := Snapshot s2\<rparr>) = Snapshot s2" by simp
    show "sw_status s2 = PipelineRunning" "sw_mode s2 = md" "sw_targetCount s2 = targetCount"
      "sw_startedAt s2 = Num t1"
      by (simp_all add: s2_def s1_def)
    show "get_agent (sw_agents s2) a =
        OwnAgent \<lparr>ag_name = a, ag_status = Failed, ag_iteration = Num 0, ag_wave = Num 0,
                  ag_startedAt = None, ag_completedAt = None, ag_error = Some err\<rparr>"
      using ga by (simp add: failed_def assign_failed)
  next
    fix b assume "b \<in> set agentNames" "b \<noteq> a"
    from gb[OF this] show "get_agent (sw_agents s2) b =
           OwnAgent \<lparr>ag_name = b, ag_status = Pending, ag_iteration = Num 0, ag_wave = Num 0,
                     ag_startedAt = None, ag_completedAt = None, ag_error = None\<rparr>"
      by (simp add: fresh_agent_def)
  qed
qed

text \<open>
  Three runs on an empty file system: three agents of which the second fails; two agents of
  which one is named \<open>__proto__\<close>; one agent and the target count \<open>NaN\<close>.
\<close>

definition trip_init :: "unit io" where
  "trip_init = init [''a1'', ''a2'', ''a3''] (Num 1) ''parallel'' 10
                 (new_StateTracker ''/ws'' ''demo'' 5, empty_world)"

definition trip_update :: "unit io" where
  "trip_update = updateAgent ''a2'' (failed_with ''boom'') (snd trip_init)"

definition lost_init :: "unit io" where
  "lost_init = init [''a1'', ''__proto__''] (Num 1) ''parallel'' 10
                  (new_StateTracker ''/ws'' ''demo'' 5, empty_world)"

definition lost_update :: "unit io" where
  "lost_update = updateAgent ''a1'' (failed_with ''boom'') (snd lost_init)"

definition lost_load :: "state_value option io" where
  "lost_load = load (new_StateTracker ''/ws'' ''demo'' 30, snd (snd lost_update))"

definition nan_init :: "unit io" where
  "nan_init = init [''a1''] NaN ''parallel'' 10 (new_StateTracker ''/ws'' ''demo'' 5, empty_world)"

definition nan_update :: "unit io" where
  "nan_update = updateAgent ''a1'' (failed_with ''boom'') (snd nan_init)"

definition nan_load :: "state_value option io" where
  "nan_load = load (new_StateTracker ''/ws'' ''demo'' 30, snd (snd nan_update))"

lemma trip_runs:
  "init [''a1'', ''a2'', ''a3''] (Num 1) ''parallel'' 10
     (new_StateTracker ''/ws'' ''demo'' 5, empty_world) =
   (Resolved (), fst (snd trip_init), snd (snd trip_init))"
  "updateAgent ''a2'' (failed_with ''boom'') (fst (snd trip_init), snd (snd trip_init)) =
   (Resolved (), fst (snd trip_update), snd (snd trip_update))"
proof -
  have 1: "fst trip_init = Resolved ()" by code_simp
  have 2: "fst trip_update = Resolved ()" by code_simp
  show "init [''a1'', ''a2'', ''a3''] (Num 1) ''parallel'' 10
     (new_StateTracker ''/ws'' ''demo'' 5, empty_world) =
   (Resolved (), fst (snd trip_init), snd (snd trip_init))"
    unfolding 1[symmetric] prod.collapse by (simp add: trip_init_def)
  show "updateAgent ''a2'' (failed_with ''boom'') (fst (snd trip_init), snd (snd trip_init)) =
   (Resolved (), fst (snd trip_update), snd (snd trip_update))"
    unfolding 2[symmetric] prod.collapse by (simp add: trip_update_def)
qed

lemma trip_readable: "state_path (fst (snd trip_update)) \<notin> unreadable (snd (snd trip_update))"
  by code_simp

text \<open>
  The round trip for the agents \<open>a1\<close>, \<open>a2\<close>, \<open>a3\<close> after \<open>a2\<close> has failed with \<open>boom\<close>.
\<close>

theorem state_round_trip_witness:
  "fst trip_init = Resolved () \<and> fst trip_update = Resolved () \<and>
   (\<exists>s2 loaded.
      load (new_StateTracker ''/ws'' ''demo'' 30, snd (snd trip_update)) =
        (Resolved (Some (Snapshot s2)), loaded, snd (snd trip_update)) \<and>
      state (fst (snd trip_update)) = Snapshot s2 \<and> state loaded = Snapshot s2 \<and>
      sw_status s2 = PipelineRunning \<and> sw_mode s2 = ''parallel'' \<and>
      sw_targetCount s2 = Num 1 \<and> sw_startedAt s2 = Num 10 \<and>
      get_agent (sw_agents s2) ''a2'' =
        OwnAgent \<lparr>ag_name = ''a2'', ag_status = Failed, ag_iteration = Num 0, ag_wave = Num 0,
                  ag_startedAt = None, ag_completedAt = None, ag_error = Some ''boom''\<rparr> \<and>
      get_agent (sw_agents s2) ''a1'' =
        OwnAgent \<lparr>ag_name = ''a1'', ag_status = Pending, ag_iteration = Num 0, ag_wave = Num 0,
                  ag_startedAt = None, ag_completedAt = None, ag_error = None\<rparr> \<and>
      get_agent (sw_agents s2) ''a3'' =
        OwnAgent \<lparr>ag_name = ''a3'', ag_status = Pending, ag_iteration = Num 0, ag_wave = Num 0,
                  ag_startedAt = None, ag_completedAt = None, ag_error = None\<rparr>)"
proof -
  have a: "''a2'' \<in> set [''a1'', ''a2'', ''a3'']"
    and p: "''__proto__'' \<notin> set [''a1'', ''a2'', ''a3'']"
    and f: "is_finite (Num 1)"
    by (simp_all add: is_finite_def)
  note T = state_round_trip[OF a p f trip_runs trip_readable, of 30]
  have 1: "fst trip_init = Resolved ()" by code_simp
  have 2: "fst trip_update = Resolved ()" by code_simp
  have 3: "\<exists>s2 loaded.
      load (new_StateTracker ''/ws'' ''demo'' 30, snd (snd trip_update)) =
        (Resolved (Some (Snapshot s2)), loaded, snd (snd trip_update)) \<and>
      state (fst (snd trip_update)) = Snapshot s2 \<and> state loaded = Snapshot s2 \<and>
      sw_status s2 = PipelineRunning \<and> sw_mode s2 = ''parallel'' \<and>
      sw_targetCount s2 = Num 1 \<and> sw_startedAt s2 = Num 10 \<and>
      get_agent (sw_agents s2) ''a2'' =
        OwnAgent \<lparr>ag_name = ''a2'', ag_status = Failed, ag_iteration = Num 0, ag_wave = Num 0,
                  ag_startedAt = None, ag_completedAt = None, ag_error = Some ''boom''\<rparr> \<and>
      get_agent (sw_agents s2) ''a1'' =
        OwnAgent \<lparr>ag_name = ''a1'', ag_status = Pending, ag_iteration = Num 0, ag_wave = Num 0,
                  ag_startedAt = None, ag_completedAt = None, ag_error = None\<rparr> \<and>
      get_agent (sw_agents s2) ''a3'' =
        OwnAgent \<lparr>ag_name = ''a3'', ag_status = Pending, ag_iteration = Num 0, ag_wave = Num 0,
                  ag_startedAt = None, ag_completedAt = None, ag_error = None\<rparr>"
    using T by simp
  from 1 2 3 show ?thesis by (intro conjI)
qed

text \<open>
  C6, as stated, fails on two inputs. For the agent names \<open>a1\<close> and \<open>__proto__\<close>, \<open>init\<close>
  and \<open>updateAgent\<close> resolve and the tracker holds the agent \<open>__proto__\<close>, pending, as the
  prototype of its agents object; the snapshot that \<open>load\<close> returns has the agent \<open>a1\<close> only,
  and \<open>agents["__proto__"]\<close> is \<open>Object.prototype\<close> there. For the target count \<open>NaN\<close> the
  state in memory has the target count \<open>NaN\<close>, and \<open>load\<close> returns a document whose target
  count is \<open>null\<close>.
\<close>

theorem round_trip_lost:
  "fst lost_init = Resolved () \<and> fst lost_update = Resolved () \<and>
   get_agent (agents_of (state (fst (snd lost_update)))) ''__proto__'' =
     ProtoAgent \<lparr>ag_name = ''__proto__'', ag_status = Pending, ag_iteration = Num 0,
                 ag_wave = Num 0, ag_startedAt = None, ag_completedAt = None,
                 ag_error = None\<rparr> \<and>
   fst lost_load =
     Resolved (Some (Snapshot
       \<lparr>sw_name = ''demo'', sw_status = PipelineRunning, sw_mode = ''parallel'',
        sw_iteration = Num 0, sw_targetCount = Num 1,
        sw_agents =
          \<lparr>own = [(''a1'', \<lparr>ag_name = ''a1'', ag_status = Failed, ag_iteration = Num 0,
                              ag_wave = Num 0, ag_startedAt = None, ag_completedAt = None,
                              ag_error = Some ''boom''\<rparr>)],
           proto = None\<rparr>,
        sw_startedAt = Num 10, sw_completedAt = None\<rparr>)) \<and>
   get_agent (agents_of (state (fst (snd lost_load)))) ''__proto__'' = ObjectPrototype \<and>
   fst lost_load \<noteq> Resolved (Some (state (fst (snd lost_update)))) \<and>
   fst nan_init = Resolved () \<and> fst nan_update = Resolved () \<and>
   state (fst (snd nan_update)) =
     Snapshot
       \<lparr>sw_name = ''demo'', sw_status = PipelineRunning, sw_mode = ''parallel'',
        sw_iteration = Num 0, sw_targetCount = NaN,
        sw_agents =
          \<lparr>own = [(''a1'', \<lparr>ag_name = ''a1'', ag_status = Failed, ag_iteration = Num 0,
                              ag_wave = Num 0, ag_startedAt = None, ag_completedAt = None,
                              ag_error = Some ''boom''\<rparr>)],
           proto = None\<rparr>,
        sw_startedAt = Num 10, sw_completedAt = None\<rparr> \<and>
   fst nan_load =
     Resolved (Some (Foreign (JObj
       [(''name'', JStr ''demo''), (''status'', JStr ''running''), (''mode'', JStr ''parallel''),
        (''iteration'', JNum 0), (''targetCount'', JNull),
        (''agents'', JObj [(''a1'', JObj [(''name'', JStr ''a1''), (''status'', JStr ''failed''),
                                          (''iteration'', JNum 0), (''wave'', JNum 0),
                                          (''error'', JStr ''boom'')])]),
        (''startedAt'', JNum 10)])))"
  by code_simp

subsection \<open>executeSwarmAgent (swarm/executor.ts)\<close>

text \<open>
  Modelled from the spec: the result type \<open>SingleResult\<close> and the external executor
  \<open>runSubprocess\<close> of the task package, which are not among the sources. The result has an
  exit code and an optional error text. What the executor does is a parameter of the model:
  a function from the request and the file system it is called in to its \<open>outcome\<close>, a
  returned result or a thrown value, and the file system it leaves (the agent it runs has
  tools that write to the workspace). The pass-through handles (signal, progress callback,
  credentials, registry, settings) are left out of the request.

  One call of \<open>executeSwarmAgent\<close> is described, from its first statement to its last, with
  no other call running in between.
\<close>

record SingleResult =
  exitCode :: number
  res_error :: "string option"
  res_output :: string

datatype outcome = Returned SingleResult | Threw thrown

record AgentDefinition =
  def_name :: string
  def_description :: string
  def_systemPrompt :: string
  def_source :: string

record SubprocessRequest =
  req_cwd :: string
  req_agent :: AgentDefinition
  req_task :: string
  req_index :: number
  req_id :: string
  req_modelOverride :: "string option"
  req_enableLsp :: bool
  req_artifactsDir :: string

record SwarmExecutorOptions =
  opt_workspace :: string
  opt_swarmName :: string
  opt_iteration :: number
  opt_modelOverride :: "string option"

text \<open>
  The clock of one call: \<open>now_at clk i\<close> is what the \<open>i\<close>-th evaluation of \<open>Date.now()\<close>
  returns, \<open>iso_at clk i\<close> what the \<open>i\<close>-th \<open>new Date().toISOString()\<close> returns, counted from 0.
\<close>

record clock =
  now_at :: "nat \<Rightarrow> int"
  iso_at :: "nat \<Rightarrow> string"

text \<open>
  \<open>number_text\<close> is the text of a number in a template literal. It is the decimal numeral for
  an integer below \<open>2^53\<close> in absolute value; for a larger one the text depends on the
  double nearest to it, which is not described.
\<close>

fun nat_digits :: "nat \<Rightarrow> string" where
  "nat_digits n =
     (if n < 10 then [char_of (48 + n)]
      else nat_digits (n div 10) @ [char_of (48 + n mod 10)])"

declare nat_digits.simps [simp del]

definition decimal :: "int \<Rightarrow> string" where
  "decimal i = (if i < 0 then ''-'' @ nat_digits (nat (- i)) else nat_digits (nat i))"

definition number_text :: "number \<Rightarrow> string option" where
  "number_text x =
     (case x of
        Num n \<Rightarrow> if \<bar>n\<bar> < 9007199254740992 then Some (decimal n) else None
      | NaN \<Rightarrow> Some ''NaN''
      | PosInfinity \<Rightarrow> Some ''Infinity''
      | NegInfinity \<Rightarrow> Some ''-Infinity'')"

definition buildSystemPrompt :: "SwarmAgent \<Rightarrow> string" where
  "buildSystemPrompt agent =
     (let first = ''You are a '' @ role agent @ ''.'' in
      case extraContext agent of
        None \<Rightarrow> first
      | Some extra \<Rightarrow> if extra = [] then first else first @ [CHR 0x0A, CHR 0x0A] @ extra)"

definition subprocess_request ::
  "SwarmAgent \<Rightarrow> number \<Rightarrow> SwarmExecutorOptions \<Rightarrow> string \<Rightarrow> StateTracker \<Rightarrow> SubprocessRequest" where
  "subprocess_request agent index options iteration_text stateTracker =
     \<lparr>req_cwd = opt_workspace options,
      req_agent = \<lparr>def_name = agent_name agent,
                   def_description = ''Swarm agent: '' @ role agent,
                   def_systemPrompt = buildSystemPrompt agent,
                   def_source = ''project''\<rparr>,
      req_task = task agent,
      req_index = index,
      req_id = ''swarm-'' @ opt_swarmName options @ ''-'' @ agent_name agent @ ''-'' @
               iteration_text,
      req_modelOverride = opt_modelOverride options,
      req_enableLsp = False,
      req_artifactsDir = path_join [swarmDir stateTracker, ''context'']\<rparr>"

text \<open>
  The body of \<open>try\<close> is \<open>try_block\<close>, entered with the outcome of the external call; the
  handler is \<open>catch_block\<close>. A tracker call that rejects inside \<open>try\<close> is caught by the
  handler like a throw of the external call; one that rejects inside the handler, or before
  \<open>try\<close>, rejects the whole call.
\<close>

definition thrown_message :: "thrown \<Rightarrow> string" where
  "thrown_message err = (case err of ErrorObject message \<Rightarrow> message | OtherValue str \<Rightarrow> str)"

definition catch_block ::
  "string \<Rightarrow> string \<Rightarrow> thrown \<Rightarrow> int \<Rightarrow> string \<Rightarrow> StateTracker \<times> world \<Rightarrow> SingleResult io" where
  "catch_block nm iteration_text err now timestamp trw =
     (let error = thrown_message err in
      case updateAgent nm
             (no_update\<lparr>up_status := Some Failed, up_completedAt := Some (Some (Num now)),
                         up_error := Some (Some error)\<rparr>) trw of
        (Rejected e, trw') \<Rightarrow> (Rejected e, trw')
      | (OutsideModel, trw') \<Rightarrow> (OutsideModel, trw')
      | (Resolved u, trw') \<Rightarrow>
          (case appendLog nm (''Iteration '' @ iteration_text @ '' error: '' @ error)
                  timestamp trw' of
             (Rejected e, trw'') \<Rightarrow> (Rejected e, trw'')
           | (OutsideModel, trw'') \<Rightarrow> (OutsideModel, trw'')
           | (Resolved u', trw'') \<Rightarrow> (Rejected err, trw'')))"

definition try_block ::
  "string \<Rightarrow> string \<Rightarrow> outcome \<Rightarrow> clock \<Rightarrow> StateTracker \<times> world \<Rightarrow> SingleResult io" where
  "try_block nm iteration_text out clk trw =
     (case out of
        Threw err \<Rightarrow> catch_block nm iteration_text err (now_at clk 1) (iso_at clk 1) trw
      | Returned result \<Rightarrow>
          (let status = (if exitCode result = Num 0 then Completed else Failed) in
           case updateAgent nm
                  (no_update\<lparr>up_status := Some status,
                              up_completedAt := Some (Some (Num (now_at clk 1))),
                              up_error := Some (res_error result)\<rparr>) trw of
             (Rejected e, trw') \<Rightarrow>
               catch_block nm iteration_text e (now_at clk 2) (iso_at clk 1) trw'
           | (OutsideModel, trw') \<Rightarrow> (OutsideModel, trw')
           | (Resolved u, trw') \<Rightarrow>
               (case appendLog nm
                       (''Iteration '' @ iteration_text @ '' '' @ agent_status_str status @
                        (case res_error result of
                           None \<Rightarrow> []
                         | Some e \<Rightarrow> if e = [] then [] else '': '' @ e))
                       (iso_at clk 1) trw' of
                  (Rejected e, trw'') \<Rightarrow>
                    catch_block nm iteration_text e (now_at clk 2) (iso_at clk 2) trw''
                | (OutsideModel, trw'') \<Rightarrow> (OutsideModel, trw'')
                | (Resolved u', trw'') \<Rightarrow> (Resolved result, trw''))))"

definition executeSwarmAgent ::
  "SwarmAgent \<Rightarrow> number \<Rightarrow> SwarmExecutorOptions \<Rightarrow>
   (SubprocessRequest \<Rightarrow> world \<Rightarrow> outcome \<times> world) \<Rightarrow> clock \<Rightarrow>
   StateTracker \<times> world \<Rightarrow> SingleResult io" where
  "executeSwarmAgent agent index options runSubprocess clk trw =
     (case number_text (opt_iteration options) of
        None \<Rightarrow> (OutsideModel, trw)
      | Some iteration_text \<Rightarrow>
          (case updateAgent (agent_name agent)
                  (no_update\<lparr>up_status := Some Running,
                              up_iteration := Some (opt_iteration options),
                              up_startedAt := Some (Some (Num (now_at clk 0)))\<rparr>) trw of
             (Rejected e, trw1) \<Rightarrow> (Rejected e, trw1)
           | (OutsideModel, trw1) \<Rightarrow> (OutsideModel, trw1)
           | (Resolved u, trw1) \<Rightarrow>
               (case appendLog (agent_name agent) (''Starting iteration '' @ iteration_text)
                       (iso_at clk 0) trw1 of
                  (Rejected e, trw2) \<Rightarrow> (Rejected e, trw2)
                | (OutsideModel, trw2) \<Rightarrow> (OutsideModel, trw2)
                | (Resolved u', trw2) \<Rightarrow>
                    (case runSubprocess
                            (subprocess_request agent index options iteration_text (fst trw2))
                            (snd trw2) of
                       (out, w') \<Rightarrow>
                         try_block (agent_name agent) iteration_text out clk (fst trw2, w')))))"

subsection \<open>A usable run directory\<close>

text \<open>
  Writing the snapshot and appending to the log succeed in a usable run directory and leave
  it usable.
\<close>

lemma is_dir_more_dirs:
  assumes "\<forall>q \<in> D. is_dir w q"
  shows "is_dir (w\<lparr>dirs := dirs w \<union> D, files := f\<rparr>) q = is_dir w q"
  using assms by (auto simp: is_dir_def)

lemma is_dir_files [simp]: "is_dir (w\<lparr>files := f\<rparr>) q = is_dir w q"
  by (simp add: is_dir_def)

lemma fs_write_ready:
  assumes "fs_ready w sp lp"
  shows "\<exists>w'. fs_write sp j w = (None, w') \<and> fs_ready w' sp lp \<and>
           files w' sp = Some \<lparr>doc = Some j, tail = []\<rparr> \<and> log_lines w' lp = log_lines w lp"
proof -
  from assms have r: "sp \<noteq> lp" "sp \<notin> denied w" "lp \<notin> denied w" "\<not> is_dir w sp" "\<not> is_dir w lp"
    "\<not> blocked w sp" "list_all (is_dir w) (dir_prefixes sp)" "is_dir w (dirname lp)"
    "files w (dirname lp) = None"
    by (simp_all add: fs_ready_def)
  define w' where "w' = w\<lparr>dirs := dirs w \<union> set (dir_prefixes sp),
                     files := (files w)(sp \<mapsto> \<lparr>doc = Some j, tail = []\<rparr>)\<rparr>"
  from r(7) have pre: "\<forall>q \<in> set (dir_prefixes sp). is_dir w q" by (simp add: list_all_iff)
  have d: "is_dir w' q = is_dir w q" for q
    unfolding w'_def by (rule is_dir_more_dirs[OF pre])
  have wr: "fs_write sp j w = (None, w')"
    using r(2,4,6) by (simp add: fs_write_def w'_def)
  have f: "files w' q = (if q = sp then Some \<lparr>doc = Some j, tail = []\<rparr> else files w q)" for q
    by (simp add: w'_def)
  have dn: "denied w' = denied w" by (simp add: w'_def)
  have nsp: "dirname lp \<noteq> sp" using r(4,8) by auto
  have "blocked w' sp = blocked w sp"
    unfolding blocked_def list_ex_iff using pre r(4) by (auto simp: f)
  with r d f dn nsp have "fs_ready w' sp lp"
    by (simp add: fs_ready_def list_all_iff)
  moreover have "log_lines w' lp = log_lines w lp" using r(1) by (simp add: log_lines_def f)
  ultimately show ?thesis using wr f by auto
qed

lemma fs_append_ready:
  assumes "fs_ready w sp lp"
  shows "\<exists>w'. fs_append lp t w = (None, w') \<and> fs_ready w' sp lp \<and>
           files w' sp = files w sp \<and> log_lines w' lp = log_lines w lp @ [t]"
proof -
  from assms have r: "sp \<noteq> lp" "sp \<notin> denied w" "lp \<notin> denied w" "\<not> is_dir w sp" "\<not> is_dir w lp"
    "\<not> blocked w sp" "list_all (is_dir w) (dir_prefixes sp)" "is_dir w (dirname lp)"
    "files w (dirname lp) = None"
    by (simp_all add: fs_ready_def)
  define nf where "nf = (case files w lp of None \<Rightarrow> \<lparr>doc = None, tail = [t]\<rparr>
                         | Some f \<Rightarrow> f\<lparr>tail := tail f @ [t]\<rparr>)"
  define w' where "w' = w\<lparr>files := (files w)(lp \<mapsto> nf)\<rparr>"
  have ap: "fs_append lp t w = (None, w')"
    using r(3,5,8,9) by (simp add: fs_append_def w'_def nf_def)
  have f: "files w' q = (if q = lp then Some nf else files w q)" for q
    by (simp add: w'_def)
  have d: "is_dir w' q = is_dir w q" for q by (simp add: w'_def)
  have dn: "denied w' = denied w" by (simp add: w'_def)
  from r(7) have pre: "\<forall>q \<in> set (dir_prefixes sp). is_dir w q" by (simp add: list_all_iff)
  have "blocked w' sp = blocked w sp"
    unfolding blocked_def list_ex_iff using pre r(5) by (auto simp: f)
  moreover have "dirname lp \<noteq> lp" using r(5,8) by auto
  ultimately have "fs_ready w' sp lp" using r d f dn by (simp add: fs_ready_def list_all_iff)
  moreover have "log_lines w' lp = log_lines w lp @ [t]"
    by (simp add: log_lines_def f nf_def split: option.splits)
  ultimately show ?thesis using ap f r(1) by auto
qed

lemma persist_ready:
  assumes "fs_ready w (state_path tr) lp"
  shows "\<exists>w'. persist (tr, w) = (Resolved (), tr, w') \<and> fs_ready w' (state_path tr) lp \<and>
           files w' (state_path tr) = Some \<lparr>doc = Some (stringify (state tr)), tail = []\<rparr> \<and>
           log_lines w' lp = log_lines w lp"
proof -
  from fs_write_ready[OF assms, of "stringify (state tr)"] obtain w'
    where "fs_write (state_path tr) (stringify (state tr)) w = (None, w')"
      "fs_ready w' (state_path tr) lp"
      "files w' (state_path tr) = Some \<lparr>doc = Some (stringify (state tr)), tail = []\<rparr>"
      "log_lines w' lp = log_lines w lp"
    by blast
  then show ?thesis by (simp add: persist_def)
qed

lemma state_path_cong: "swarmDir tr' = swarmDir tr \<Longrightarrow> state_path tr' = state_path tr"
  by (simp add: state_path_def)

lemma log_path_cong: "swarmDir tr' = swarmDir tr \<Longrightarrow> log_path tr' nm = log_path tr nm"
  by (simp add: log_path_def)

lemma get_agent_ProtoD:
  "get_agent ags nm = ProtoAgent p \<Longrightarrow>
   map_of (own ags) nm = None \<and> nm = ''__proto__'' \<and> proto ags = Some p"
  by (auto simp: get_agent_def builtin_member_def inherited_field_def
           split: option.splits if_splits)

lemma updateAgent_known:
  assumes "state tr = Snapshot s" "agent_entry (sw_agents s) nm = Some a"
    "fs_ready w (state_path tr) lp"
  shows "\<exists>tr' w' s'. updateAgent nm u (tr, w) = (Resolved (), tr', w') \<and>
           swarmDir tr' = swarmDir tr \<and> state tr' = Snapshot s' \<and>
           agent_entry (sw_agents s') nm = Some (assign_agent a u) \<and>
           fs_ready w' (state_path tr) lp \<and>
           files w' (state_path tr) = Some \<lparr>doc = Some (stringify_state s'), tail = []\<rparr> \<and>
           log_lines w' lp = log_lines w lp"
proof -
  have step: "\<exists>tr' w' s'. updateAgent nm u (tr, w) = (Resolved (), tr', w') \<and>
           swarmDir tr' = swarmDir tr \<and> state tr' = Snapshot s' \<and>
           agent_entry (sw_agents s') nm = Some (assign_agent a u) \<and>
           fs_ready w' (state_path tr) lp \<and>
           files w' (state_path tr) = Some \<lparr>doc = Some (stringify_state s'), tail = []\<rparr> \<and>
           log_lines w' lp = log_lines w lp"
    if u: "updateAgent nm u (tr, w) = persist (tr\<lparr>state := Snapshot s'\<rparr>, w)"
      and g: "agent_entry (sw_agents s') nm = Some (assign_agent a u)" for s'
  proof -
    define tr' where "tr' = tr\<lparr>state := Snapshot s'\<rparr>"
    have sp: "state_path tr' = state_path tr" by (simp add: tr'_def state_path_def)
    from persist_ready[of w tr' lp] assms(3) obtain w'
      where p: "persist (tr', w) = (Resolved (), tr', w')" "fs_ready w' (state_path tr) lp"
        "files w' (state_path tr) = Some \<lparr>doc = Some (stringify (state tr')), tail = []\<rparr>"
        "log_lines w' lp = log_lines w lp"
      unfolding sp by blast
    have "stringify (state tr') = stringify_state s'" by (simp add: tr'_def stringify_def)
    with u g p show ?thesis
      by (intro exI[of _ tr'] exI[of _ w'] exI[of _ s']) (simp add: tr'_def)
  qed
  from assms(2) consider
    (own) "get_agent (sw_agents s) nm = OwnAgent a" | (proto) "get_agent (sw_agents s) nm = ProtoAgent a"
    by (auto simp: agent_entry_def split: target.splits)
  then show ?thesis
  proof cases
    case own
    let ?s' = "s\<lparr>sw_agents := (sw_agents s)\<lparr>own :=
             AList.update nm (assign_agent a u) (own (sw_agents s))\<rparr>\<rparr>"
    have 1: "updateAgent nm u (tr, w) = persist (tr\<lparr>state := Snapshot ?s'\<rparr>, w)"
      by (simp add: updateAgent_def assms(1) own)
    have 2: "agent_entry (sw_agents ?s') nm = Some (assign_agent a u)"
      by (simp add: agent_entry_def get_agent_def update_conv')
    show ?thesis by (rule step[OF 1 2])
  next
    case proto
    from get_agent_ProtoD[OF proto]
    have d: "map_of (own (sw_agents s)) nm = None" "nm = ''__proto__''" by blast+
    let ?s' = "s\<lparr>sw_agents := (sw_agents s)\<lparr>proto := Some (assign_agent a u)\<rparr>\<rparr>"
    have 1: "updateAgent nm u (tr, w) = persist (tr\<lparr>state := Snapshot ?s'\<rparr>, w)"
      by (simp add: updateAgent_def assms(1) proto)
    have 2: "agent_entry (sw_agents ?s') nm = Some (assign_agent a u)"
      using d by (simp add: agent_entry_def get_agent_def)
    show ?thesis by (rule step[OF 1 2])
  qed
qed

lemma appendLog_ready:
  assumes "fs_ready w sp (log_path tr nm)"
  shows "\<exists>w'. appendLog nm msg ts (tr, w) = (Resolved (), tr, w') \<and>
           fs_ready w' sp (log_path tr nm) \<and> files w' sp = files w sp \<and>
           log_lines w' (log_path tr nm) = log_lines w (log_path tr nm) @ [log_line ts msg]"
proof -
  from fs_append_ready[OF assms, of "log_line ts msg"] obtain w'
    where "fs_append (log_path tr nm) (log_line ts msg) w = (None, w')"
      "fs_ready w' sp (log_path tr nm)" "files w' sp = files w sp"
      "log_lines w' (log_path tr nm) = log_lines w (log_path tr nm) @ [log_line ts msg]"
    by blast
  then show ?thesis by (simp add: appendLog_def)
qed

lemma subprocess_request_cong:
  "swarmDir tr' = swarmDir tr \<Longrightarrow>
   subprocess_request agent index options itext tr' = subprocess_request agent index options itext tr"
  by (simp add: subprocess_request_def)

lemma assign_running:
  "assign_agent a (no_update\<lparr>up_status := Some Running, up_iteration := Some it,
                              up_startedAt := Some (Some t)\<rparr>)
   = a\<lparr>ag_status := Running, ag_iteration := it, ag_startedAt := Some t\<rparr>"
  by (simp add: assign_agent_def no_update_def or_else_def)

lemma assign_final:
  "assign_agent a (no_update\<lparr>up_status := Some st, up_completedAt := Some (Some t),
                              up_error := Some e\<rparr>)
   = a\<lparr>ag_status := st, ag_completedAt := Some t, ag_error := e\<rparr>"
  by (simp add: assign_agent_def no_update_def or_else_def)

lemma update_then_log:
  assumes s: "state tr = Snapshot s"
    and a: "agent_entry (sw_agents s) nm = Some a0"
    and r: "fs_ready w (state_path tr) (log_path tr nm)"
  shows "\<exists>tr' w1 w' s'.
      updateAgent nm u (tr, w) = (Resolved (), tr', w1) \<and>
      appendLog nm msg ts (tr', w1) = (Resolved (), tr', w') \<and>
      swarmDir tr' = swarmDir tr \<and> state tr' = Snapshot s' \<and>
      agent_entry (sw_agents s') nm = Some (assign_agent a0 u) \<and>
      fs_ready w' (state_path tr) (log_path tr nm) \<and>
      files w' (state_path tr) = Some \<lparr>doc = Some (stringify_state s'), tail = []\<rparr> \<and>
      log_lines w' (log_path tr nm) = log_lines w (log_path tr nm) @ [log_line ts msg]"
proof -
  from updateAgent_known[OF s a r, of u] obtain tr1 w1 s1
    where u: "updateAgent nm u (tr, w) = (Resolved (), tr1, w1)"
      and d: "swarmDir tr1 = swarmDir tr" and s1: "state tr1 = Snapshot s1"
      and g: "agent_entry (sw_agents s1) nm = Some (assign_agent a0 u)"
      and r1: "fs_ready w1 (state_path tr) (log_path tr nm)"
      and f1: "files w1 (state_path tr) = Some \<lparr>doc = Some (stringify_state s1), tail = []\<rparr>"
      and l1: "log_lines w1 (log_path tr nm) = log_lines w (log_path tr nm)"
    by (elim exE conjE)
  have lp: "log_path tr1 nm = log_path tr nm" by (rule log_path_cong[OF d])
  from r1 have r1': "fs_ready w1 (state_path tr) (log_path tr1 nm)" by (simp only: lp)
  from appendLog_ready[OF r1', of msg ts] obtain w2
    where ap: "appendLog nm msg ts (tr1, w1) = (Resolved (), tr1, w2)"
      and r2: "fs_ready w2 (state_path tr) (log_path tr1 nm)"
      and f2: "files w2 (state_path tr) = files w1 (state_path tr)"
      and l2: "log_lines w2 (log_path tr1 nm) = log_lines w1 (log_path tr1 nm) @ [log_line ts msg]"
    by (elim exE conjE)
  show ?thesis
    apply (rule exI[of _ tr1], rule exI[of _ w1], rule exI[of _ w2], rule exI[of _ s1])
    using u ap d s1 g r2 f1 f2 l2 l1 by (simp add: lp)
qed

lemma try_block_returned:
  assumes s: "state tr = Snapshot s"
    and a: "agent_entry (sw_agents s) nm = Some a0"
    and r: "fs_ready w (state_path tr) (log_path tr nm)"
  shows "\<exists>tr' w' s'.
      try_block nm itext (Returned result) clk (tr, w) = (Resolved result, tr', w') \<and>
      state tr' = Snapshot s' \<and>
      agent_entry (sw_agents s') nm =
        Some (a0\<lparr>ag_status := (if exitCode result = Num 0 then Completed else Failed),
                      ag_completedAt := Some (Num (now_at clk 1)),
                      ag_error := res_error result\<rparr>) \<and>
      files w' (state_path tr) = Some \<lparr>doc = Some (stringify_state s'), tail = []\<rparr> \<and>
      log_lines w' (log_path tr nm) = log_lines w (log_path tr nm) @
        [''['' @ iso_at clk 1 @ ''] Iteration '' @ itext @ '' '' @
         (if exitCode result = Num 0 then ''completed'' else ''failed'') @
         (case res_error result of None \<Rightarrow> [] | Some e \<Rightarrow> if e = [] then [] else '': '' @ e) @
         [CHR 0x0A]]"
proof -
  let ?st = "if exitCode result = Num 0 then Completed else Failed"
  let ?u = "no_update\<lparr>up_status := Some ?st, up_completedAt := Some (Some (Num (now_at clk 1))),
                       up_error := Some (res_error result)\<rparr>"
  let ?msg = "''Iteration '' @ itext @ '' '' @ agent_status_str ?st @
              (case res_error result of None \<Rightarrow> [] | Some e \<Rightarrow> if e = [] then [] else '': '' @ e)"
  from update_then_log[OF s a r, of ?u ?msg "iso_at clk 1"] obtain tr' w1 w' s'
    where u: "updateAgent nm ?u (tr, w) = (Resolved (), tr', w1)"
      and ap: "appendLog nm ?msg (iso_at clk 1) (tr', w1) = (Resolved (), tr', w')"
      and s': "state tr' = Snapshot s'"
      and g: "agent_entry (sw_agents s') nm = Some (assign_agent a0 ?u)"
      and f: "files w' (state_path tr) = Some \<lparr>doc = Some (stringify_state s'), tail = []\<rparr>"
      and l: "log_lines w' (log_path tr nm) = log_lines w (log_path tr nm) @
                [log_line (iso_at clk 1) ?msg]"
    by (elim exE conjE)
  have t: "try_block nm itext (Returned result) clk (tr, w) = (Resolved result, tr', w')"
    unfolding try_block_def outcome.case Let_def u prod.case result.case ap ..
  have st: "agent_status_str ?st = (if exitCode result = Num 0 then ''completed'' else ''failed'')"
    by simp
  show ?thesis
    apply (rule exI[of _ tr'], rule exI[of _ w'], rule exI[of _ s'])
    using t s' g f l unfolding assign_final st log_line_def by simp
qed

lemma try_block_threw:
  assumes s: "state tr = Snapshot s"
    and a: "agent_entry (sw_agents s) nm = Some a0"
    and r: "fs_ready w (state_path tr) (log_path tr nm)"
  shows "\<exists>tr' w' s'.
      try_block nm itext (Threw err) clk (tr, w) = (Rejected err, tr', w') \<and>
      state tr' = Snapshot s' \<and>
      agent_entry (sw_agents s') nm =
        Some (a0\<lparr>ag_status := Failed, ag_completedAt := Some (Num (now_at clk 1)),
                      ag_error := Some (thrown_message err)\<rparr>) \<and>
      files w' (state_path tr) = Some \<lparr>doc = Some (stringify_state s'), tail = []\<rparr> \<and>
      log_lines w' (log_path tr nm) = log_lines w (log_path tr nm) @
        [''['' @ iso_at clk 1 @ ''] Iteration '' @ itext @ '' error: '' @ thrown_message err @
         [CHR 0x0A]]"
proof -
  let ?u = "no_update\<lparr>up_status := Some Failed, up_completedAt := Some (Some (Num (now_at clk 1))),
                       up_error := Some (Some (thrown_message err))\<rparr>"
  let ?msg = "''Iteration '' @ itext @ '' error: '' @ thrown_message err"
  from update_then_log[OF s a r, of ?u ?msg "iso_at clk 1"] obtain tr' w1 w' s'
    where u: "updateAgent nm ?u (tr, w) = (Resolved (), tr', w1)"
      and ap: "appendLog nm ?msg (iso_at clk 1) (tr', w1) = (Resolved (), tr', w')"
      and s': "state tr' = Snapshot s'"
      and g: "agent_entry (sw_agents s') nm = Some (assign_agent a0 ?u)"
      and f: "files w' (state_path tr) = Some \<lparr>doc = Some (stringify_state s'), tail = []\<rparr>"
      and l: "log_lines w' (log_path tr nm) = log_lines w (log_path tr nm) @
                [log_line (iso_at clk 1) ?msg]"
    by (elim exE conjE)
  have t: "try_block nm itext (Threw err) clk (tr, w) = (Rejected err, tr', w')"
    unfolding try_block_def outcome.case catch_block_def Let_def u prod.case result.case ap ..
  show ?thesis
    apply (rule exI[of _ tr'], rule exI[of _ w'], rule exI[of _ s'])
    using t s' g f l unfolding assign_final log_line_def by simp
qed

lemma executeSwarmAgent_start:
  assumes s: "state tr = Snapshot s"
    and a: "agent_entry (sw_agents s) (agent_name agent) = Some a0"
    and r: "fs_ready w (state_path tr) (log_path tr (agent_name agent))"
    and nt: "number_text (opt_iteration options) = Some itext"
  shows "\<exists>tr1 w2 s1.
      (\<forall>out wr. runSubprocess (subprocess_request agent index options itext tr) w2 = (out, wr)
         \<longrightarrow> executeSwarmAgent agent index options runSubprocess clk (tr, w) =
               try_block (agent_name agent) itext out clk (tr1, wr)) \<and>
      state_path tr1 = state_path tr \<and>
      log_path tr1 (agent_name agent) = log_path tr (agent_name agent) \<and>
      state tr1 = Snapshot s1 \<and>
      agent_entry (sw_agents s1) (agent_name agent) =
        Some (a0\<lparr>ag_status := Running, ag_iteration := opt_iteration options,
                      ag_startedAt := Some (Num (now_at clk 0))\<rparr>) \<and>
      fs_ready w2 (state_path tr) (log_path tr (agent_name agent)) \<and>
      log_lines w2 (log_path tr (agent_name agent)) =
        log_lines w (log_path tr (agent_name agent)) @
        [''['' @ iso_at clk 0 @ ''] Starting iteration '' @ itext @ [CHR 0x0A]]"
proof -
  let ?nm = "agent_name agent"
  let ?u = "no_update\<lparr>up_status := Some Running, up_iteration := Some (opt_iteration options),
                       up_startedAt := Some (Some (Num (now_at clk 0)))\<rparr>"
  let ?msg = "''Starting iteration '' @ itext"
  from update_then_log[OF s a r, of ?u ?msg "iso_at clk 0"] obtain tr1 w1 w2 s1
    where u: "updateAgent ?nm ?u (tr, w) = (Resolved (), tr1, w1)"
      and ap: "appendLog ?nm ?msg (iso_at clk 0) (tr1, w1) = (Resolved (), tr1, w2)"
      and d: "swarmDir tr1 = swarmDir tr"
      and s1: "state tr1 = Snapshot s1"
      and g: "agent_entry (sw_agents s1) ?nm = Some (assign_agent a0 ?u)"
      and r2: "fs_ready w2 (state_path tr) (log_path tr ?nm)"
      and l: "log_lines w2 (log_path tr ?nm) = log_lines w (log_path tr ?nm) @
                [log_line (iso_at clk 0) ?msg]"
    by (elim exE conjE)
  have rq: "subprocess_request agent index options itext tr1 =
            subprocess_request agent index options itext tr"
    by (rule subprocess_request_cong[OF d])
  have e: "executeSwarmAgent agent index options runSubprocess clk (tr, w) =
           try_block ?nm itext out clk (tr1, wr)"
    if "runSubprocess (subprocess_request agent index options itext tr) w2 = (out, wr)"
    for out wr
    unfolding executeSwarmAgent_def nt option.case u prod.case result.case ap fst_conv snd_conv
      rq that ..
  show ?thesis
    apply (rule exI[of _ tr1], rule exI[of _ w2], rule exI[of _ s1])
    using e s1 g r2 l state_path_cong[OF d] log_path_cong[OF d, of ?nm]
    unfolding assign_running log_line_def by simp
qed

text \<open>
  C7, amended. Let the tracker hold a record for the agent under its name, let the
  iteration number have the text \<open>n\<close> (it is an integer below \<open>2^53\<close> in absolute value,
  \<open>NaN\<close> or an infinity), and let the run directory be usable: the snapshot file can
  be written and the log file of the agent appended to. Then \<open>executeSwarmAgent\<close> marks the
  agent as running, logs the starting line and calls the external executor, in a file
  system \<open>w2\<close> in which the run directory is usable. Whatever the executor does, if the run
  directory is still usable in the file system \<open>wr\<close> that it leaves:

  \<^item> when it returns a result, the call returns that result; the agent is \<open>completed\<close> if
    the exit code is 0 and \<open>failed\<close> otherwise, with the iteration, the start time, the
    completion time and the error text of the result; the snapshot file holds the new state;
    the line \<^verbatim>\<open>[time] Iteration n status\<close>, followed by \<^verbatim>\<open>: error\<close> for a non-empty error text,
    is appended to the log;

  \<^item> when it throws an \<open>Error\<close>, the call throws the same \<open>Error\<close>; the agent is \<open>failed\<close>
    with the message as its error and with a completion time; the snapshot file holds the
    new state; the line \<^verbatim>\<open>[time] Iteration n error: message\<close> is appended to the log;

  \<^item> when it throws another value, the same holds with the text of the value for the
    message.
\<close>

theorem executeSwarmAgent_outcome:
  assumes s: "state tr = Snapshot s"
    and a: "agent_entry (sw_agents s) (agent_name agent) = Some a0"
    and r: "fs_ready w (state_path tr) (log_path tr (agent_name agent))"
    and nt: "number_text (opt_iteration options) = Some itext"
  shows "\<exists>w2.
      fs_ready w2 (state_path tr) (log_path tr (agent_name agent)) \<and>
      log_lines w2 (log_path tr (agent_name agent)) =
        log_lines w (log_path tr (agent_name agent)) @
        [''['' @ iso_at clk 0 @ ''] Starting iteration '' @ itext @ [CHR 0x0A]] \<and>
      (\<forall>result wr.
         runSubprocess (subprocess_request agent index options itext tr) w2 = (Returned result, wr) \<and>
         fs_ready wr (state_path tr) (log_path tr (agent_name agent)) \<longrightarrow>
         (\<exists>tr' w' s'.
            executeSwarmAgent agent index options runSubprocess clk (tr, w) =
              (Resolved result, tr', w') \<and>
            state tr' = Snapshot s' \<and>
            agent_entry (sw_agents s') (agent_name agent) =
              Some (a0\<lparr>ag_status := (if exitCode result = Num 0 then Completed else Failed),
                        ag_iteration := opt_iteration options,
                        ag_startedAt := Some (Num (now_at clk 0)),
                        ag_completedAt := Some (Num (now_at clk 1)),
                        ag_error := res_error result\<rparr>) \<and>
            files w' (state_path tr) = Some \<lparr>doc = Some (stringify_state s'), tail = []\<rparr> \<and>
            log_lines w' (log_path tr (agent_name agent)) =
              log_lines wr (log_path tr (agent_name agent)) @
              [''['' @ iso_at clk 1 @ ''] Iteration '' @ itext @ '' '' @
               (if exitCode result = Num 0 then ''completed'' else ''failed'') @
               (case res_error result of
                  None \<Rightarrow> [] | Some e \<Rightarrow> if e = [] then [] else '': '' @ e) @
               [CHR 0x0A]])) \<and>
      (\<forall>message wr.
         runSubprocess (subprocess_request agent index options itext tr) w2 =
           (Threw (ErrorObject message), wr) \<and>
         fs_ready wr (state_path tr) (log_path tr (agent_name agent)) \<longrightarrow>
         (\<exists>tr' w' s'.
            executeSwarmAgent agent index options runSubprocess clk (tr, w) =
              (Rejected (ErrorObject message), tr', w') \<and>
            state tr' = Snapshot s' \<and>
            agent_entry (sw_agents s') (agent_name agent) =
              Some (a0\<lparr>ag_status := Failed,
                        ag_iteration := opt_iteration options,
                        ag_startedAt := Some (Num (now_at clk 0)),
                        ag_completedAt := Some (Num (now_at clk 1)),
                        ag_error := Some message\<rparr>) \<and>
            files w' (state_path tr) = Some \<lparr>doc = Some (stringify_state s'), tail = []\<rparr> \<and>
            log_lines w' (log_path tr (agent_name agent)) =
              log_lines wr (log_path tr (agent_name agent)) @
              [''['' @ iso_at clk 1 @ ''] Iteration '' @ itext @ '' error: '' @ message @
               [CHR 0x0A]])) \<and>
      (\<forall>str wr.
         runSubprocess (subprocess_request agent index options itext tr) w2 =
           (Threw (OtherValue str), wr) \<and>
         fs_ready wr (state_path tr) (log_path tr (agent_name agent)) \<longrightarrow>
         (\<exists>tr' w' s'.
            executeSwarmAgent agent index options runSubprocess clk (tr, w) =
              (Rejected (OtherValue str), tr', w') \<and>
            state tr' = Snapshot s' \<and>
            agent_entry (sw_agents s') (agent_name agent) =
              Some (a0\<lparr>ag_status := Failed,
                        ag_iteration := opt_iteration options,
                        ag_startedAt := Some (Num (now_at clk 0)),
                        ag_completedAt := Some (Num (now_at clk 1)),
                        ag_error := Some str\<rparr>) \<and>
            files w' (state_path tr) = Some \<lparr>doc = Some (stringify_state s'), tail = []\<rparr> \<and>
            log_lines w' (log_path tr (agent_name agent)) =
              log_lines wr (log_path tr (agent_name agent)) @
              [''['' @ iso_at clk 1 @ ''] Iteration '' @ itext @ '' error: '' @ str @
               [CHR 0x0A]]))"
proof -
  let ?nm = "agent_name agent"
  let ?sp = "state_path tr"
  let ?lp = "log_path tr ?nm"
  let ?req = "subprocess_request agent index options itext tr"
  from executeSwarmAgent_start[OF s a r nt, of runSubprocess index clk] obtain tr1 w2 s1
    where e: "\<And>out wr. runSubprocess ?req w2 = (out, wr) \<Longrightarrow>
                executeSwarmAgent agent index options runSubprocess clk (tr, w) =
                try_block ?nm itext out clk (tr1, wr)"
      and sp: "state_path tr1 = ?sp" and lp: "log_path tr1 ?nm = ?lp"
      and s1: "state tr1 = Snapshot s1"
      and g1: "agent_entry (sw_agents s1) ?nm =
                 Some (a0\<lparr>ag_status := Running, ag_iteration := opt_iteration options,
                           ag_startedAt := Some (Num (now_at clk 0))\<rparr>)"
      and r2: "fs_ready w2 ?sp ?lp"
      and l2: "log_lines w2 ?lp = log_lines w ?lp @
                 [''['' @ iso_at clk 0 @ ''] Starting iteration '' @ itext @ [CHR 0x0A]]"
    by (elim exE conjE) blast
  have rec: "(a0\<lparr>ag_status := Running, ag_iteration := i, ag_startedAt := t0\<rparr>)
               \<lparr>ag_status := st, ag_completedAt := t1, ag_error := er\<rparr> =
             a0\<lparr>ag_status := st, ag_iteration := i, ag_startedAt := t0, ag_completedAt := t1,
                ag_error := er\<rparr>" for st i t0 t1 er
    by simp
  have ret: "\<exists>tr' w' s'.
      executeSwarmAgent agent index options runSubprocess clk (tr, w) = (Resolved result, tr', w') \<and>
      state tr' = Snapshot s' \<and>
      agent_entry (sw_agents s') ?nm =
        Some (a0\<lparr>ag_status := (if exitCode result = Num 0 then Completed else Failed),
                  ag_iteration := opt_iteration options,
                  ag_startedAt := Some (Num (now_at clk 0)),
                  ag_completedAt := Some (Num (now_at clk 1)),
                  ag_error := res_error result\<rparr>) \<and>
      files w' ?sp = Some \<lparr>doc = Some (stringify_state s'), tail = []\<rparr> \<and>
      log_lines w' ?lp = log_lines wr ?lp @
        [''['' @ iso_at clk 1 @ ''] Iteration '' @ itext @ '' '' @
         (if exitCode result = Num 0 then ''completed'' else ''failed'') @
         (case res_error result of None \<Rightarrow> [] | Some e \<Rightarrow> if e = [] then [] else '': '' @ e) @
         [CHR 0x0A]]"
    if run: "runSubprocess ?req w2 = (Returned result, wr)" and rr: "fs_ready wr ?sp ?lp"
    for result wr
  proof -
    from rr have rr': "fs_ready wr (state_path tr1) (log_path tr1 ?nm)" by (simp only: sp lp)
    from try_block_returned[OF s1 g1 rr', of itext result clk]
    show ?thesis unfolding e[OF run] sp lp rec .
  qed
  have thr: "\<exists>tr' w' s'.
      executeSwarmAgent agent index options runSubprocess clk (tr, w) = (Rejected err, tr', w') \<and>
      state tr' = Snapshot s' \<and>
      agent_entry (sw_agents s') ?nm =
        Some (a0\<lparr>ag_status := Failed,
                  ag_iteration := opt_iteration options,
                  ag_startedAt := Some (Num (now_at clk 0)),
                  ag_completedAt := Some (Num (now_at clk 1)),
                  ag_error := Some (thrown_message err)\<rparr>) \<and>
      files w' ?sp = Some \<lparr>doc = Some (stringify_state s'), tail = []\<rparr> \<and>
      log_lines w' ?lp = log_lines wr ?lp @
        [''['' @ iso_at clk 1 @ ''] Iteration '' @ itext @ '' error: '' @ thrown_message err @
         [CHR 0x0A]]"
    if run: "runSubprocess ?req w2 = (Threw err, wr)" and rr: "fs_ready wr ?sp ?lp"
    for err wr
  proof -
    from rr have rr': "fs_ready wr (state_path tr1) (log_path tr1 ?nm)" by (simp only: sp lp)
    from try_block_threw[OF s1 g1 rr', of itext err clk]
    show ?thesis unfolding e[OF run] sp lp rec .
  qed
  have m1: "thrown_message (ErrorObject message) = message" for message
    by (simp add: thrown_message_def)
  have m2: "thrown_message (OtherValue str) = str" for str
    by (simp add: thrown_message_def)
  show ?thesis
  proof (rule exI[of _ w2], intro conjI allI impI)
    show "fs_ready w2 ?sp ?lp" by (rule r2)
    show "log_lines w2 ?lp = log_lines w ?lp @
            [''['' @ iso_at clk 0 @ ''] Starting iteration '' @ itext @ [CHR 0x0A]]" by (rule l2)
  next
    fix result wr
    assume "runSubprocess ?req w2 = (Returned result, wr) \<and> fs_ready wr ?sp ?lp"
    then show "\<exists>tr' w' s'.
      executeSwarmAgent agent index options runSubprocess clk (tr, w) = (Resolved result, tr', w') \<and>
      state tr' = Snapshot s' \<and>
      agent_entry (sw_agents s') ?nm =
        Some (a0\<lparr>ag_status := (if exitCode result = Num 0 then Completed else Failed),
                  ag_iteration := opt_iteration options,
                  ag_startedAt := Some (Num (now_at clk 0)),
                  ag_completedAt := Some (Num (now_at clk 1)),
                  ag_error := res_error result\<rparr>) \<and>
      files w' ?sp = Some \<lparr>doc = Some (stringify_state s'), tail = []\<rparr> \<and>
      log_lines w' ?lp = log_lines wr ?lp @
        [''['' @ iso_at clk 1 @ ''] Iteration '' @ itext @ '' '' @
         (if exitCode result = Num 0 then ''completed'' else ''failed'') @
         (case res_error result of None \<Rightarrow> [] | Some e \<Rightarrow> if e = [] then [] else '': '' @ e) @
         [CHR 0x0A]]"
      using ret by blast
  next
    fix message wr
    assume "runSubprocess ?req w2 = (Threw (ErrorObject message), wr) \<and> fs_ready wr ?sp ?lp"
    then have "runSubprocess ?req w2 = (Threw (ErrorObject message), wr)" "fs_ready wr ?sp ?lp"
      by simp_all
    from thr[OF this] show "\<exists>tr' w' s'.
      executeSwarmAgent agent index options runSubprocess clk (tr, w) =
        (Rejected (ErrorObject message), tr', w') \<and>
      state tr' = Snapshot s' \<and>
      agent_entry (sw_agents s') ?nm =
        Some (a0\<lparr>ag_status := Failed,
                  ag_iteration := opt_iteration options,
                  ag_startedAt := Some (Num (now_at clk 0)),
                  ag_completedAt := Some (Num (now_at clk 1)),
                  ag_error := Some message\<rparr>) \<and>
      files w' ?sp = Some \<lparr>doc = Some (stringify_state s'), tail = []\<rparr> \<and>
      log_lines w' ?lp = log_lines wr ?lp @
        [''['' @ iso_at clk 1 @ ''] Iteration '' @ itext @ '' error: '' @ message @ [CHR 0x0A]]"
      unfolding m1 .
  next
    fix str wr
    assume "runSubprocess ?req w2 = (Threw (OtherValue str), wr) \<and> fs_ready wr ?sp ?lp"
    then have "runSubprocess ?req w2 = (Threw (OtherValue str), wr)" "fs_ready wr ?sp ?lp"
      by simp_all
    from thr[OF this] show "\<exists>tr' w' s'.
      executeSwarmAgent agent index options runSubprocess clk (tr, w) =
        (Rejected (OtherValue str), tr', w') \<and>
      state tr' = Snapshot s' \<and>
      agent_entry (sw_agents s') ?nm =
        Some (a0\<lparr>ag_status := Failed,
                  ag_iteration := opt_iteration options,
                  ag_startedAt := Some (Num (now_at clk 0)),
                  ag_completedAt := Some (Num (now_at clk 1)),
                  ag_error := Some str\<rparr>) \<and>
      files w' ?sp = Some \<lparr>doc = Some (stringify_state s'), tail = []\<rparr> \<and>
      log_lines w' ?lp = log_lines wr ?lp @
        [''['' @ iso_at clk 1 @ ''] Iteration '' @ itext @ '' error: '' @ str @ [CHR 0x0A]]"
      unfolding m2 .
  qed
qed

text \<open>
  A run for the agent \<open>a1\<close>, iteration 12, in the run directory that \<open>init\<close> creates on an
  empty file system. The clock reads 20, 30, 40 and \<open>T0\<close>, \<open>T1\<close>, \<open>T2\<close>.
\<close>

definition plain_agent :: "string \<Rightarrow> SwarmAgent" where
  "plain_agent nm = \<lparr>agent_name = nm, role = ''worker'', task = ''do the work'',
     extraContext = None, waitsFor = [], reportsTo = []\<rparr>"

definition demo_options :: SwarmExecutorOptions where
  "demo_options = \<lparr>opt_workspace = ''/ws'', opt_swarmName = ''demo'', opt_iteration = Num 12,
     opt_modelOverride = None\<rparr>"

definition demo_clock :: clock where
  "demo_clock = \<lparr>now_at = (\<lambda>i. 20 + 10 * int i), iso_at = (\<lambda>i. ''T'' @ nat_digits i)\<rparr>"

definition demo_result :: SingleResult where
  "demo_result = \<lparr>exitCode = Num 0, res_error = None, res_output = ''done''\<rparr>"

definition demo_init :: "unit io" where
  "demo_init = init [''a1''] (Num 1) ''parallel'' 10 (new_StateTracker ''/ws'' ''demo'' 5, empty_world)"

definition demo_state :: SwarmState where
  "demo_state = \<lparr>sw_name = ''demo'', sw_status = PipelineRunning, sw_mode = ''parallel'',
     sw_iteration = Num 0, sw_targetCount = Num 1,
     sw_agents = \<lparr>own = [(''a1'', fresh_agent ''a1'')], proto = None\<rparr>,
     sw_startedAt = Num 10, sw_completedAt = None\<rparr>"

definition demo_tracker :: StateTracker where
  "demo_tracker = fst (snd demo_init)"

definition demo_world :: world where
  "demo_world = snd (snd demo_init)"

definition failed_result :: SingleResult where
  "failed_result = \<lparr>exitCode = Num 1, res_error = Some ''timeout'', res_output = []\<rparr>"

lemma demo_hyps:
  "state demo_tracker = Snapshot demo_state"
  "agent_entry (sw_agents demo_state) (agent_name (plain_agent ''a1'')) = Some (fresh_agent ''a1'')"
  "fs_ready demo_world (state_path demo_tracker)
     (log_path demo_tracker (agent_name (plain_agent ''a1'')))"
  "number_text (opt_iteration demo_options) = Some ''12''"
  by code_simp+

lemma demo_values:
  "agent_name (plain_agent ''a1'') = ''a1''"
  "state_path demo_tracker = ''/ws/.swarm_demo/state/pipeline.json''"
  "log_path demo_tracker ''a1'' = ''/ws/.swarm_demo/logs/a1.log''"
  "log_lines demo_world ''/ws/.swarm_demo/logs/a1.log'' = []"
  "iso_at demo_clock 0 = ''T0''" "iso_at demo_clock 1 = ''T1''"
  "now_at demo_clock 0 = 20" "now_at demo_clock 1 = 30"
  "opt_iteration demo_options = Num 12"
  "exitCode demo_result = Num 0" "res_error demo_result = None"
  "exitCode failed_result = Num 1" "res_error failed_result = Some ''timeout''"
  by code_simp+

lemma demo_agent_final:
  "(fresh_agent ''a1'')\<lparr>ag_status := st, ag_iteration := Num 12, ag_startedAt := Some (Num 20),
                         ag_completedAt := Some (Num 30), ag_error := er\<rparr> =
   \<lparr>ag_name = ''a1'', ag_status = st, ag_iteration = Num 12, ag_wave = Num 0,
    ag_startedAt = Some (Num 20), ag_completedAt = Some (Num 30), ag_error = er\<rparr>"
  by (simp add: fresh_agent_def)

text \<open>
  The four outcomes for the agent \<open>a1\<close>: exit code 0, exit code 1 with the error text
  \<open>timeout\<close>, a thrown \<open>Error\<close> with the message \<open>spawn failed\<close>, and the thrown number 42.
\<close>

theorem executeSwarmAgent_outcome_witness:
  "state demo_tracker = Snapshot demo_state \<and>
   agent_entry (sw_agents demo_state) ''a1'' = Some (fresh_agent ''a1'') \<and>
   fs_ready demo_world ''/ws/.swarm_demo/state/pipeline.json'' ''/ws/.swarm_demo/logs/a1.log'' \<and>
   number_text (opt_iteration demo_options) = Some ''12'' \<and>
   (\<exists>tr' w' s'.
      executeSwarmAgent (plain_agent ''a1'') (Num 0) demo_options
        (\<lambda>req w. (Returned demo_result, w)) demo_clock (demo_tracker, demo_world) =
        (Resolved demo_result, tr', w') \<and>
      state tr' = Snapshot s' \<and>
      agent_entry (sw_agents s') ''a1'' =
        Some \<lparr>ag_name = ''a1'', ag_status = Completed, ag_iteration = Num 12, ag_wave = Num 0,
              ag_startedAt = Some (Num 20), ag_completedAt = Some (Num 30), ag_error = None\<rparr> \<and>
      files w' ''/ws/.swarm_demo/state/pipeline.json'' =
        Some \<lparr>doc = Some (stringify_state s'), tail = []\<rparr> \<and>
      log_lines w' ''/ws/.swarm_demo/logs/a1.log'' =
        [''[T0] Starting iteration 12'' @ [CHR 0x0A],
         ''[T1] Iteration 12 completed'' @ [CHR 0x0A]]) \<and>
   (\<exists>tr' w' s'.
      executeSwarmAgent (plain_agent ''a1'') (Num 0) demo_options
        (\<lambda>req w. (Returned failed_result, w)) demo_clock (demo_tracker, demo_world) =
        (Resolved failed_result, tr', w') \<and>
      state tr' = Snapshot s' \<and>
      agent_entry (sw_agents s') ''a1'' =
        Some \<lparr>ag_name = ''a1'', ag_status = Failed, ag_iteration = Num 12, ag_wave = Num 0,
              ag_startedAt = Some (Num 20), ag_completedAt = Some (Num 30),
              ag_error = Some ''timeout''\<rparr> \<and>
      files w' ''/ws/.swarm_demo/state/pipeline.json'' =
        Some \<lparr>doc = Some (stringify_state s'), tail = []\<rparr> \<and>
      log_lines w' ''/ws/.swarm_demo/logs/a1.log'' =
        [''[T0] Starting iteration 12'' @ [CHR 0x0A],
         ''[T1] Iteration 12 failed: timeout'' @ [CHR 0x0A]]) \<and>
   (\<exists>tr' w' s'.
      executeSwarmAgent (plain_agent ''a1'') (Num 0) demo_options
        (\<lambda>req w. (Threw (ErrorObject ''spawn failed''), w)) demo_clock (demo_tracker, demo_world) =
        (Rejected (ErrorObject ''spawn failed''), tr', w') \<and>
      state tr' = Snapshot s' \<and>
      agent_entry (sw_agents s') ''a1'' =
        Some \<lparr>ag_name = ''a1'', ag_status = Failed, ag_iteration = Num 12, ag_wave = Num 0,
              ag_startedAt = Some (Num 20), ag_completedAt = Some (Num 30),
              ag_error = Some ''spawn failed''\<rparr> \<and>
      files w' ''/ws/.swarm_demo/state/pipeline.json'' =
        Some \<lparr>doc = Some (stringify_state s'), tail = []\<rparr> \<and>
      log_lines w' ''/ws/.swarm_demo/logs/a1.log'' =
        [''[T0] Starting iteration 12'' @ [CHR 0x0A],
         ''[T1] Iteration 12 error: spawn failed'' @ [CHR 0x0A]]) \<and>
   (\<exists>tr' w' s'.
      executeSwarmAgent (plain_agent ''a1'') (Num 0) demo_options
        (\<lambda>req w. (Threw (OtherValue ''42''), w)) demo_clock (demo_tracker, demo_world) =
        (Rejected (OtherValue ''42''), tr', w') \<and>
      state tr' = Snapshot s' \<and>
      agent_entry (sw_agents s') ''a1'' =
        Some \<lparr>ag_name = ''a1'', ag_status = Failed, ag_iteration = Num 12, ag_wave = Num 0,
              ag_startedAt = Some (Num 20), ag_completedAt = Some (Num 30),
              ag_error = Some ''42''\<rparr> \<and>
      files w' ''/ws/.swarm_demo/state/pipeline.json'' =
        Some \<lparr>doc = Some (stringify_state s'), tail = []\<rparr> \<and>
      log_lines w' ''/ws/.swarm_demo/logs/a1.log'' =
        [''[T0] Starting iteration 12'' @ [CHR 0x0A],
         ''[T1] Iteration 12 error: 42'' @ [CHR 0x0A]])"
proof -
  note T = executeSwarmAgent_outcome[where tr = demo_tracker and s = demo_state
      and agent = "plain_agent ''a1''" and ?a0.0 = "fresh_agent ''a1''" and w = demo_world
      and options = demo_options and itext = "''12''" and clk = demo_clock and index = "Num 0",
      OF demo_hyps, unfolded demo_values]
  have c1: "\<exists>tr' w' s'.
      executeSwarmAgent (plain_agent ''a1'') (Num 0) demo_options
        (\<lambda>req w. (Returned demo_result, w)) demo_clock (demo_tracker, demo_world) =
        (Resolved demo_result, tr', w') \<and>
      state tr' = Snapshot s' \<and>
      agent_entry (sw_agents s') ''a1'' =
        Some \<lparr>ag_name = ''a1'', ag_status = Completed, ag_iteration = Num 12, ag_wave = Num 0,
              ag_startedAt = Some (Num 20), ag_completedAt = Some (Num 30), ag_error = None\<rparr> \<and>
      files w' ''/ws/.swarm_demo/state/pipeline.json'' =
        Some \<lparr>doc = Some (stringify_state s'), tail = []\<rparr> \<and>
      log_lines w' ''/ws/.swarm_demo/logs/a1.log'' =
        [''[T0] Starting iteration 12'' @ [CHR 0x0A],
         ''[T1] Iteration 12 completed'' @ [CHR 0x0A]]"
  proof (rule exE[OF T[where runSubprocess = "\<lambda>req w. (Returned demo_result, w)"]], goal_cases)
    case (1 w2)
    note r2 = 1[THEN conjunct1] and l2 = 1[THEN conjunct2, THEN conjunct1]
      and A = 1[THEN conjunct2, THEN conjunct2, THEN conjunct1]
    note A[rule_format, of demo_result w2, OF conjI[OF refl r2]]
    then show ?case unfolding l2 by (simp add: demo_values demo_agent_final)
  qed
  have c2: "\<exists>tr' w' s'.
      executeSwarmAgent (plain_agent ''a1'') (Num 0) demo_options
        (\<lambda>req w. (Returned failed_result, w)) demo_clock (demo_tracker, demo_world) =
        (Resolved failed_result, tr', w') \<and>
      state tr' = Snapshot s' \<and>
      agent_entry (sw_agents s') ''a1'' =
        Some \<lparr>ag_name = ''a1'', ag_status = Failed, ag_iteration = Num 12, ag_wave = Num 0,
              ag_startedAt = Some (Num 20), ag_completedAt = Some (Num 30),
              ag_error = Some ''timeout''\<rparr> \<and>
      files w' ''/ws/.swarm_demo/state/pipeline.json'' =
        Some \<lparr>doc = Some (stringify_state s'), tail = []\<rparr> \<and>
      log_lines w' ''/ws/.swarm_demo/logs/a1.log'' =
        [''[T0] Starting iteration 12'' @ [CHR 0x0A],
         ''[T1] Iteration 12 failed: timeout'' @ [CHR 0x0A]]"
  proof (rule exE[OF T[where runSubprocess = "\<lambda>req w. (Returned failed_result, w)"]], goal_cases)
    case (1 w2)
    note r2 = 1[THEN conjunct1] and l2 = 1[THEN conjunct2, THEN conjunct1]
      and A = 1[THEN conjunct2, THEN conjunct2, THEN conjunct1]
    note A[rule_format, of failed_result w2, OF conjI[OF refl r2]]
    then show ?case unfolding l2 by (simp add: demo_values demo_agent_final)
  qed
  have c3: "\<exists>tr' w' s'.
      executeSwarmAgent (plain_agent ''a1'') (Num 0) demo_options
        (\<lambda>req w. (Threw (ErrorObject ''spawn failed''), w)) demo_clock (demo_tracker, demo_world) =
        (Rejected (ErrorObject ''spawn failed''), tr', w') \<and>
      state tr' = Snapshot s' \<and>
      agent_entry (sw_agents s') ''a1'' =
        Some \<lparr>ag_name = ''a1'', ag_status = Failed, ag_iteration = Num 12, ag_wave = Num 0,
              ag_startedAt = Some (Num 20), ag_completedAt = Some (Num 30),
              ag_error = Some ''spawn failed''\<rparr> \<and>
      files w' ''/ws/.swarm_demo/state/pipeline.json'' =
        Some \<lparr>doc = Some (stringify_state s'), tail = []\<rparr> \<and>
      log_lines w' ''/ws/.swarm_demo/logs/a1.log'' =
        [''[T0] Starting iteration 12'' @ [CHR 0x0A],
         ''[T1] Iteration 12 error: spawn failed'' @ [CHR 0x0A]]"
  proof (rule exE[OF T[where runSubprocess =
                         "\<lambda>req w. (Threw (ErrorObject ''spawn failed''), w)"]], goal_cases)
    case (1 w2)
    note r2 = 1[THEN conjunct1] and l2 = 1[THEN conjunct2, THEN conjunct1]
      and B = 1[THEN conjunct2, THEN conjunct2, THEN conjunct2, THEN conjunct1]
    note B[rule_format, of "''spawn failed''" w2, OF conjI[OF refl r2]]
    then show ?case unfolding l2 by (simp add: demo_values demo_agent_final)
  qed
  have c4: "\<exists>tr' w' s'.
      executeSwarmAgent (plain_agent ''a1'') (Num 0) demo_options
        (\<lambda>req w. (Threw (OtherValue ''42''), w)) demo_clock (demo_tracker, demo_world) =
        (Rejected (OtherValue ''42''), tr', w') \<and>
      state tr' = Snapshot s' \<and>
      agent_entry (sw_agents s') ''a1'' =
        Some \<lparr>ag_name = ''a1'', ag_status = Failed, ag_iteration = Num 12, ag_wave = Num 0,
              ag_startedAt = Some (Num 20), ag_completedAt = Some (Num 30),
              ag_error = Some ''42''\<rparr> \<and>
      files w' ''/ws/.swarm_demo/state/pipeline.json'' =
        Some \<lparr>doc = Some (stringify_state s'), tail = []\<rparr> \<and>
      log_lines w' ''/ws/.swarm_demo/logs/a1.log'' =
        [''[T0] Starting iteration 12'' @ [CHR 0x0A],
         ''[T1] Iteration 12 error: 42'' @ [CHR 0x0A]]"
  proof (rule exE[OF T[where runSubprocess = "\<lambda>req w. (Threw (OtherValue ''42''), w)"]],
         goal_cases)
    case (1 w2)
    note r2 = 1[THEN conjunct1] and l2 = 1[THEN conjunct2, THEN conjunct1]
      and C = 1[THEN conjunct2, THEN conjunct2, THEN conjunct2, THEN conjunct2]
    note C[rule_format, of "''42''" w2, OF conjI[OF refl r2]]
    then show ?case unfolding l2 by (simp add: demo_values demo_agent_final)
  qed
  note h = demo_hyps[unfolded demo_values]
  show ?thesis
    by (intro conjI) (rule h demo_hyps c1 c2 c3 c4)+
qed

text \<open>
  Two more runs. In the first the agent is named \<open>a/b\<close>: its log file is
  \<^verbatim>\<open>logs/a/b.log\<close>, in a directory that nothing creates. In the second the external
  executor removes the directory of the logs before it returns with exit code 0.
\<close>

definition slash_init :: "unit io" where
  "slash_init = init [''a/b''] (Num 1) ''parallel'' 10 (new_StateTracker ''/ws'' ''demo'' 5, empty_world)"

definition slash_run :: "SingleResult io" where
  "slash_run = executeSwarmAgent (plain_agent ''a/b'') (Num 0) demo_options
                 (\<lambda>req w. (Returned demo_result, w)) demo_clock (snd slash_init)"

definition remove_logs :: "SubprocessRequest \<Rightarrow> world \<Rightarrow> outcome \<times> world" where
  "remove_logs req w =
     (Returned demo_result,
      w\<lparr>dirs := dirs w - {''/ws/.swarm_demo/logs''},
        files := (\<lambda>p. if p = ''/ws/.swarm_demo/logs/a1.log'' then None else files w p)\<rparr>)"

definition wiped_run :: "SingleResult io" where
  "wiped_run = executeSwarmAgent (plain_agent ''a1'') (Num 0) demo_options remove_logs demo_clock
                 (demo_tracker, demo_world)"

text \<open>
  C7, as stated, fails on both. For the agent \<open>a/b\<close>, which \<open>init\<close> has registered, the
  first \<open>appendLog\<close> rejects before the \<open>try\<close> statement is entered: the call throws the
  error of the file system, the external executor is never called, and the agent stays
  \<open>running\<close> with no completion time. In the second run the executor returns exit code 0,
  the agent is marked \<open>completed\<close>, the log line cannot be appended, and the handler marks
  the agent \<open>failed\<close> with the message of the file-system error, which the call throws.
\<close>

theorem executeSwarmAgent_log_failure:
  "fst slash_init = Resolved () \<and>
   agent_entry (agents_of (state (fst (snd slash_init)))) ''a/b'' = Some (fresh_agent ''a/b'') \<and>
   fst slash_run =
     Rejected (ErrorObject ''ENOENT: no such file or directory, open /ws/.swarm_demo/logs/a/b.log'') \<and>
   agent_entry (agents_of (state (fst (snd slash_run)))) ''a/b'' =
     Some \<lparr>ag_name = ''a/b'', ag_status = Running, ag_iteration = Num 12, ag_wave = Num 0,
           ag_startedAt = Some (Num 20), ag_completedAt = None, ag_error = None\<rparr> \<and>
   fst wiped_run =
     Rejected (ErrorObject ''ENOENT: no such file or directory, open /ws/.swarm_demo/logs/a1.log'') \<and>
   agent_entry (agents_of (state (fst (snd wiped_run)))) ''a1'' =
     Some \<lparr>ag_name = ''a1'', ag_status = Failed, ag_iteration = Num 12, ag_wave = Num 0,
           ag_startedAt = Some (Num 20), ag_completedAt = Some (Num 40),
           ag_error = Some ''ENOENT: no such file or directory, open /ws/.swarm_demo/logs/a1.log''\<rparr>"
  by code_simp

end
